theory Spec2Isabelle
  imports Main "HOL-Library.Word"
begin

section \<open>Data model\<close>

type_synonym byte = "8 word"

text \<open>The decoded protobuf message \<open>logdriver.LogEntry\<close> as the driver reads it.\<close>

record LogEntry =
  Source :: string
  TimeNano :: int
  Line :: "byte list"
  Partial :: bool

text \<open>\<open>LogEntry.Reset\<close> puts the zero value back into the message buffer.\<close>

definition LogEntry_Reset :: LogEntry where
  "LogEntry_Reset = \<lparr>Source = [], TimeNano = 0, Line = [], Partial = False\<rparr>"

record sumoLog =
  line :: "byte list"
  source :: string
  time :: string
  isPartial :: bool

section \<open>Record decoder: \<open>consumeLogsFromFile\<close>\<close>

text \<open>
  One call of \<open>dec.ReadMsg(&log)\<close> on the length-delimited reader either fills the message
  (\<open>ReadOk\<close>) or returns an error other than \<open>io.EOF\<close> (\<open>ReadErr\<close>). A rejected length prefix
  or a short read leaves the message untouched (\<open>ReadErr None\<close>); a failed unmarshal may
  leave partial contents behind (\<open>ReadErr (Some e)\<close>). The end of the list is \<open>io.EOF\<close>.
\<close>

datatype read_result = ReadOk LogEntry | ReadErr "LogEntry option"

record decoder_state =
  logQueue :: "sumoLog list"
  errorsLogged :: nat
  readersCreated :: nat
  inputFileClosed :: bool
  logQueueClosed :: bool

text \<open>
  The body of the \<open>for\<close> loop. \<open>fmtTime\<close> stands for \<open>time.Unix(0, n).String()\<close>. After the
  error branch (log, new reader) control falls through to the construction of the
  \<open>sumoLog\<close> and the send on \<open>logQueue\<close>: there is no \<open>continue\<close>.
\<close>

fun consumeLoop :: "(int \<Rightarrow> string) \<Rightarrow> read_result list \<Rightarrow> LogEntry \<Rightarrow> decoder_state \<Rightarrow> decoder_state" where
  "consumeLoop fmtTime [] log st = st\<lparr>inputFileClosed := True, logQueueClosed := True\<rparr>"
| "consumeLoop fmtTime (r # rs) log st =
     (let log' = (case r of ReadOk e \<Rightarrow> e
                   | ReadErr None \<Rightarrow> log
                   | ReadErr (Some e) \<Rightarrow> e);
          st' = (case r of ReadOk e \<Rightarrow> st
                   | ReadErr p \<Rightarrow> st\<lparr>errorsLogged := errorsLogged st + 1,
                                      readersCreated := readersCreated st + 1\<rparr>);
          sumoLog = \<lparr>line = Line log', source = Source log',
                     time = fmtTime (TimeNano log'), isPartial = Partial log'\<rparr>
      in consumeLoop fmtTime rs LogEntry_Reset (st'\<lparr>logQueue := logQueue st' @ [sumoLog]\<rparr>))"

definition consumeLogsFromFile :: "(int \<Rightarrow> string) \<Rightarrow> read_result list \<Rightarrow> decoder_state" where
  "consumeLogsFromFile fmtTime rs =
     consumeLoop fmtTime rs LogEntry_Reset
       \<lparr>logQueue = [], errorsLogged = 0, readersCreated = 1,
        inputFileClosed = False, logQueueClosed = False\<rparr>"

section \<open>Batcher and delivery queue: \<open>batchLogs\<close>, \<open>pushBatchToQueue\<close>\<close>

record sumoLogBatch =
  logs :: "sumoLog list"
  sizeBytes :: int

definition NewSumoLogBatch :: sumoLogBatch where
  "NewSumoLogBatch = \<lparr>logs = [], sizeBytes = 0\<rparr>"

definition Reset :: "sumoLogBatch \<Rightarrow> sumoLogBatch" where
  "Reset b = b\<lparr>logs := [], sizeBytes := 0\<rparr>"

text \<open>Calls of \<open>logrus.Warn\<close> and \<open>logrus.Error\<close>, in order.\<close>

datatype log_entry = Warn string | Error string

text \<open>
  The state the batcher goroutine works on. \<open>logBatchQueue\<close> is the buffer of the channel,
  oldest batch first. Three fields record what happened and are read by no branch:
  \<open>handedOff\<close> is every value sent on the channel, \<open>evicted\<close> every value
  \<open>pushBatchToQueue\<close> received back and discarded, \<open>received\<close> every value the Sender
  received.
\<close>

record batcher =
  logBatch :: sumoLogBatch
  logBatchQueue :: "sumoLog list list"
  logBatchQueueClosed :: bool
  handedOff :: "sumoLog list list"
  evicted :: "sumoLog list list"
  received :: "sumoLog list list"
  logged :: "log_entry list"

definition batcher_init :: batcher where
  "batcher_init = \<lparr>logBatch = NewSumoLogBatch, logBatchQueue = [], logBatchQueueClosed = False,
                    handedOff = [], evicted = [], received = [], logged = []\<rparr>"

text \<open>
  \<open>pushBatchToQueue\<close> with a buffered channel of capacity \<open>cap\<close>. The \<open>select\<close> sends when
  the buffer has room. Otherwise the \<open>default\<close> branch is taken, and before its receive
  runs the Sender goroutine may receive: \<open>k\<close> is the number of receives the Sender gets to
  make between the failed \<open>select\<close> and the receive of the \<open>default\<close> branch (it stays
  blocked once the buffer is empty). The branch then receives the oldest batch left,
  logs the error and sends. \<open>None\<close> is the Batcher blocked for good in a channel operation:
  its receive on a buffer the Sender has emptied, with nobody left to send, or its send on
  a buffer that is still full. A receive by the Sender between the branch's receive and
  its send leaves the same state as one after the call. Sizes are Go \<open>int\<close>s; with a
  threshold and payloads that fit 32 bits no sum here leaves 64 bits.
\<close>

definition pushBatchToQueue :: "nat \<Rightarrow> nat \<Rightarrow> batcher \<Rightarrow> batcher option" where
  "pushBatchToQueue cap k st =
     (if length (logBatchQueue st) < cap then
        Some (st\<lparr>logBatchQueue := logBatchQueue st @ [logs (logBatch st)],
                 handedOff := handedOff st @ [logs (logBatch st)],
                 logBatch := Reset (logBatch st)\<rparr>)
      else
        (case drop k (logBatchQueue st) of
           [] \<Rightarrow> None
         | oldest # rest \<Rightarrow>
             if length rest < cap then
               Some (st\<lparr>logBatchQueue := rest @ [logs (logBatch st)],
                        received := received st @ take k (logBatchQueue st),
                        evicted := evicted st @ [oldest],
                        logged := logged st @ [Error ''log batch queue full, dropping oldest batch''],
                        handedOff := handedOff st @ [logs (logBatch st)],
                        logBatch := Reset (logBatch st)\<rparr>)
             else None))"

text \<open>
  What the batcher's \<open>select\<close> can see: a record from \<open>logQueue\<close>, or a tick. \<open>SenderReceives\<close>
  is the Sender goroutine taking the oldest batch off \<open>logBatchQueue\<close> between two
  iterations; on an empty buffer the Sender stays blocked and nothing changes. What the
  Sender does inside a call of \<open>pushBatchToQueue\<close> is given by \<open>window\<close>: \<open>window n\<close> is the
  number of receives it gets to make inside the call that follows \<open>n\<close> earlier hand-offs,
  should that call take the \<open>default\<close> branch.
\<close>

datatype batcher_event = Log sumoLog | Tick | SenderReceives

fun batchStep :: "nat \<Rightarrow> int \<Rightarrow> (nat \<Rightarrow> nat) \<Rightarrow> batcher \<Rightarrow> batcher_event \<Rightarrow> batcher option" where
  "batchStep cap batchSize window st (Log log) =
     (if int (length (line log)) > batchSize then
        Some (st\<lparr>logged := logged st @ [Warn ''Log is too large to batch, dropping log.'']\<rparr>)
      else
        (case (if sizeBytes (logBatch st) + int (length (line log)) > batchSize
               then pushBatchToQueue cap (window (length (handedOff st))) st else Some st) of
           None \<Rightarrow> None
         | Some st' \<Rightarrow>
             Some (st'\<lparr>logBatch := (logBatch st')
                        \<lparr>logs := logs (logBatch st') @ [log],
                         sizeBytes := sizeBytes (logBatch st') + int (length (line log))\<rparr>\<rparr>)))"
| "batchStep cap batchSize window st Tick =
     (if length (logs (logBatch st)) > 0 then pushBatchToQueue cap (window (length (handedOff st))) st else Some st)"
| "batchStep cap batchSize window st SenderReceives =
     (case logBatchQueue st of
        [] \<Rightarrow> Some st
      | b # rest \<Rightarrow> Some (st\<lparr>logBatchQueue := rest, received := received st @ [b]\<rparr>))"

text \<open>The \<open>for\<close> loop of \<open>batchLogs\<close> while \<open>logQueue\<close> is open.\<close>

fun batchLoop :: "nat \<Rightarrow> int \<Rightarrow> (nat \<Rightarrow> nat) \<Rightarrow> batcher \<Rightarrow> batcher_event list \<Rightarrow> batcher option" where
  "batchLoop cap batchSize window st [] = Some st"
| "batchLoop cap batchSize window st (ev # evs) =
     (case batchStep cap batchSize window st ev of
        None \<Rightarrow> None
      | Some st' \<Rightarrow> batchLoop cap batchSize window st' evs)"

text \<open>
  The branch taken when \<open>logQueue\<close> is closed: a plain send of \<open>logBatch.logs\<close>, whatever
  it holds, then \<open>close\<close>. The send blocks while the buffer is full (\<open>None\<close>); a Sender that
  makes room is a \<open>SenderReceives\<close> before the end of the event list.
\<close>

definition closeFlush :: "nat \<Rightarrow> batcher \<Rightarrow> batcher option" where
  "closeFlush cap st =
     (if length (logBatchQueue st) < cap then
        Some (st\<lparr>logBatchQueue := logBatchQueue st @ [logs (logBatch st)],
                 handedOff := handedOff st @ [logs (logBatch st)],
                 logBatchQueueClosed := True\<rparr>)
      else None)"

definition batchLogs :: "nat \<Rightarrow> int \<Rightarrow> (nat \<Rightarrow> nat) \<Rightarrow> batcher_event list \<Rightarrow> batcher option" where
  "batchLogs cap batchSize window evs =
     (case batchLoop cap batchSize window batcher_init evs of
        None \<Rightarrow> None
      | Some st \<Rightarrow> closeFlush cap st)"

text \<open>The payload size of a list of records.\<close>

definition payload :: "sumoLog list \<Rightarrow> int" where
  "payload ls = sum_list (map (\<lambda>l. int (length (line l))) ls)"

text \<open>
  A caller that puts each batch of a list into \<open>logBatch\<close> and calls \<open>pushBatchToQueue\<close>,
  with no receive by the Sender inside any call.
\<close>

fun pushBatches :: "nat \<Rightarrow> batcher \<Rightarrow> sumoLog list list \<Rightarrow> batcher option" where
  "pushBatches cap st [] = Some st"
| "pushBatches cap st (b # bs) =
     (case pushBatchToQueue cap 0 (st\<lparr>logBatch := \<lparr>logs = b, sizeBytes = payload b\<rparr>\<rparr>) of
        None \<Rightarrow> None
      | Some st' \<Rightarrow> pushBatches cap st' bs)"

text \<open>The records of an event list, and whether a record is within the threshold.\<close>

fun records :: "batcher_event list \<Rightarrow> sumoLog list" where
  "records [] = []"
| "records (Log l # evs) = l # records evs"
| "records (ev # evs) = records evs"

definition fits :: "int \<Rightarrow> sumoLog \<Rightarrow> bool" where
  "fits batchSize l = (int (length (line l)) \<le> batchSize)"

section \<open>Sender: \<open>writeMessage\<close>, \<open>sendLogs\<close>, \<open>handleBatchedLogs\<close>\<close>

datatype error =
    WriteError
  | GzipLevelError int
  | NewRequestError
  | TransportError
  | BodyReadError
  | FailedToSend nat
  | AlreadyExists string
  | FifoOpenError string
  | ReadFileError string

record request =
  httpMethod :: string
  url :: string
  header :: "(string \<times> string) list"
  body :: "byte list"

text \<open>
  \<open>writeMessage\<close> over any \<open>io.Writer\<close>: one \<open>Write\<close> per record, of the payload with a
  newline (byte 10) appended, stopping at the first error. \<open>bytes.Buffer.Write\<close> appends
  and never returns an error.
\<close>

fun writeMessage :: "('w \<Rightarrow> byte list \<Rightarrow> error + 'w) \<Rightarrow> 'w \<Rightarrow> sumoLog list \<Rightarrow> error + 'w" where
  "writeMessage write w [] = Inr w"
| "writeMessage write w (log # rest) =
     (case write w (line log @ [10]) of
        Inl err \<Rightarrow> Inl err
      | Inr w' \<Rightarrow> writeMessage write w' rest)"

definition buffer_Write :: "byte list \<Rightarrow> byte list \<Rightarrow> error + byte list" where
  "buffer_Write buf p = Inr (buf @ p)"

text \<open>
  What the outside does to one call that sends a batch: \<open>http.NewRequest\<close> rejects the
  configured URL, \<open>httpClient.Do\<close> returns a transport error, or a response arrives with a
  status code and a body that \<open>ioutil.ReadAll\<close> can or cannot read.
\<close>

datatype attempt = RequestRejected | DoFails | Response nat bool

text \<open>
  \<open>sendLogs\<close> of the batching pipeline. The result is the request handed to
  \<open>httpClient.Do\<close>, if the call got that far, and the error returned (\<open>None\<close> is \<open>nil\<close>). No
  header is added to the request and the body is not compressed.
\<close>

definition sendLogs :: "string \<Rightarrow> attempt \<Rightarrow> sumoLog list \<Rightarrow> request option \<times> error option" where
  "sendLogs endpoint a ls =
     (case writeMessage buffer_Write [] ls of
        Inl err \<Rightarrow> (None, Some err)
      | Inr logsBatch \<Rightarrow>
          (let req = \<lparr>httpMethod = ''POST'', url = endpoint, header = [], body = logsBatch\<rparr>
           in case a of
                RequestRejected \<Rightarrow> (None, Some NewRequestError)
              | DoFails \<Rightarrow> (Some req, Some TransportError)
              | Response status readable \<Rightarrow>
                  if status \<noteq> 200 then
                    (if readable then (Some req, Some (FailedToSend status))
                     else (Some req, Some BodyReadError))
                  else (Some req, None)))"

text \<open>\<open>retryInterval\<close>, five seconds in nanoseconds.\<close>

definition retryInterval :: int where
  "retryInterval = 5 * 1000000000"

datatype sender_event = Post request | Sleep int

text \<open>
  A run of the Sender: what it did (\<open>trace\<close>), the batches whose send returned \<open>nil\<close>
  (\<open>delivered\<close>), the batches received or still to be received that have not been
  delivered (\<open>undelivered\<close>), and whether \<open>handleBatchedLogs\<close> has returned.
\<close>

record sender_run =
  trace :: "sender_event list"
  delivered :: "sumoLog list list"
  undelivered :: "sumoLog list list"
  returned :: bool

definition posted :: "request option \<Rightarrow> sender_event list" where
  "posted r = (case r of None \<Rightarrow> [] | Some req \<Rightarrow> [Post req])"

text \<open>
  \<open>handleBatchedLogs\<close>. The first list is what the Sender receives from \<open>logBatchQueue\<close>
  until the channel is closed and drained; the second is the outcome of each call of
  \<open>sendLogs\<close> in turn. The inner loop has no exit but a \<open>nil\<close> error, so a run over a finite
  list of outcomes may end inside it: then \<open>returned\<close> is false.
\<close>

fun handleBatchedLogs :: "string \<Rightarrow> sumoLog list list \<Rightarrow> attempt list \<Rightarrow> sender_run" where
  "handleBatchedLogs endpoint [] as =
     \<lparr>trace = [], delivered = [], undelivered = [], returned = True\<rparr>"
| "handleBatchedLogs endpoint (b # rest) [] =
     \<lparr>trace = [], delivered = [], undelivered = b # rest, returned = False\<rparr>"
| "handleBatchedLogs endpoint (b # rest) (a # as) =
     (case sendLogs endpoint a b of
        (r, None) \<Rightarrow>
          (let run = handleBatchedLogs endpoint rest as
           in run\<lparr>trace := posted r @ trace run, delivered := b # delivered run\<rparr>)
      | (r, Some err) \<Rightarrow>
          (let run = handleBatchedLogs endpoint (b # rest) as
           in run\<lparr>trace := posted r @ [Sleep retryInterval] @ trace run\<rparr>))"

text \<open>The bytes of a batch on the wire: each payload followed by a newline.\<close>

definition wire :: "sumoLog list \<Rightarrow> byte list" where
  "wire ls = concat (map (\<lambda>log. line log @ [10]) ls)"

definition succeeds :: "attempt \<Rightarrow> bool" where
  "succeeds a = (case a of Response status readable \<Rightarrow> status = 200 | _ \<Rightarrow> False)"

text \<open>What one failed call of \<open>sendLogs\<close> on a batch leaves in the trace.\<close>

definition failed_attempt :: "string \<Rightarrow> sumoLog list \<Rightarrow> attempt \<Rightarrow> sender_event list" where
  "failed_attempt endpoint ls a =
     (case a of
        RequestRejected \<Rightarrow> []
      | _ \<Rightarrow> [Post \<lparr>httpMethod = ''POST'', url = endpoint, header = [], body = wire ls\<rparr>])
     @ [Sleep retryInterval]"

section \<open>The unbatched sender of \<open>driver.go\<close>: \<open>makePostRequest\<close>\<close>

text \<open>
  The \<open>gzip.Writer\<close> on top of a buffer: \<open>NewWriterLevel\<close> rejects a level outside
  \<open>-2 .. 9\<close>, \<open>Write\<close> takes the bytes, \<open>Close\<close> leaves the compressed stream in the buffer.
  The compressor itself, \<open>gz level bytes\<close>, is a parameter.
\<close>

record gzipWriter =
  underlying :: "byte list"
  level :: int
  written :: "byte list"

definition gzip_NewWriterLevel :: "byte list \<Rightarrow> int \<Rightarrow> error + gzipWriter" where
  "gzip_NewWriterLevel buf lvl =
     (if lvl < - 2 \<or> lvl > 9 then Inl (GzipLevelError lvl)
      else Inr \<lparr>underlying = buf, level = lvl, written = []\<rparr>)"

definition gzip_Write :: "gzipWriter \<Rightarrow> byte list \<Rightarrow> error + gzipWriter" where
  "gzip_Write w p = Inr (w\<lparr>written := written w @ p\<rparr>)"

definition gzip_Close :: "(int \<Rightarrow> byte list \<Rightarrow> byte list) \<Rightarrow> gzipWriter \<Rightarrow> error + byte list" where
  "gzip_Close gz w = Inr (underlying w @ gz (level w) (written w))"

record tlsConfig =
  InsecureSkipVerify :: bool
  RootCAs :: "byte list option"
  ServerName :: string

record sumoLogger =
  httpSourceUrl :: string
  proxyUrl :: "string option"
  tlsConfig :: tlsConfig
  gzipCompression :: bool
  gzipCompressionLevel :: int
  inputQueueFile :: string
  logQueueSize :: int
  sendingInterval :: int
  batchSize :: int

definition writeMessageGzipCompression ::
    "(int \<Rightarrow> byte list \<Rightarrow> byte list) \<Rightarrow> sumoLogger \<Rightarrow> byte list \<Rightarrow> sumoLog list \<Rightarrow> error + byte list" where
  "writeMessageGzipCompression gz sumoLogger buf ls =
     (case gzip_NewWriterLevel buf (gzipCompressionLevel sumoLogger) of
        Inl err \<Rightarrow> Inl err
      | Inr gzipWriter \<Rightarrow>
          (case writeMessage gzip_Write gzipWriter ls of
             Inl err \<Rightarrow> Inl err
           | Inr gzipWriter' \<Rightarrow> gzip_Close gz gzipWriter'))"

definition makePostRequest ::
    "(int \<Rightarrow> byte list \<Rightarrow> byte list) \<Rightarrow> sumoLogger \<Rightarrow> attempt \<Rightarrow> sumoLog list \<Rightarrow> request option \<times> error option" where
  "makePostRequest gz sumoLogger a ls =
     (if length ls = 0 then (None, None)
      else
        (case (if gzipCompression sumoLogger
               then writeMessageGzipCompression gz sumoLogger [] ls
               else writeMessage buffer_Write [] ls) of
           Inl err \<Rightarrow> (None, Some err)
         | Inr logsBatch \<Rightarrow>
             (let req = \<lparr>httpMethod = ''POST'', url = httpSourceUrl sumoLogger,
                         header = [(''Content-Type'', ''text/plain'')]
                                  @ (if gzipCompression sumoLogger
                                     then [(''Content-Encoding'', ''gzip'')] else []),
                         body = logsBatch\<rparr>
              in case a of
                   RequestRejected \<Rightarrow> (None, Some NewRequestError)
                 | DoFails \<Rightarrow> (Some req, Some TransportError)
                 | Response status readable \<Rightarrow>
                     if status \<noteq> 200 then
                       (if readable then (Some req, Some (FailedToSend status))
                        else (Some req, Some BodyReadError))
                     else (Some req, None))))"

text \<open>
  \<open>sendLogs\<close> of \<open>driver.go\<close>, which cuts the pending records into chunks of \<open>batchSize\<close>
  records and stops at the first chunk that fails, keeping it and what follows. \<open>outcome n\<close>
  is what the outside does to the \<open>n\<close>-th call of \<open>makePostRequest\<close>. The result is the
  requests issued, the errors logged, the records kept and the number of calls made.
  With a \<open>batchSize\<close> that is not positive the loop on a non-empty list never returns or
  slices out of range: \<open>None\<close>.
\<close>

function sendLoop ::
    "(int \<Rightarrow> byte list \<Rightarrow> byte list) \<Rightarrow> sumoLogger \<Rightarrow> (nat \<Rightarrow> attempt) \<Rightarrow> nat \<Rightarrow> sumoLog list
       \<Rightarrow> (sender_event list \<times> log_entry list \<times> sumoLog list \<times> nat) option" where
  "sendLoop gz sumoLogger outcome n ls =
     (if ls = [] then Some ([], [], [], n)
      else if batchSize sumoLogger \<le> 0 then None
      else
        (case makePostRequest gz sumoLogger (outcome n) (take (nat (batchSize sumoLogger)) ls) of
           (r, Some err) \<Rightarrow> Some (posted r, [Error ''makePostRequest failed''], ls, Suc n)
         | (r, None) \<Rightarrow>
             (case sendLoop gz sumoLogger outcome (Suc n) (drop (nat (batchSize sumoLogger)) ls) of
                None \<Rightarrow> None
              | Some (posts, errs, failedLogs, n') \<Rightarrow> Some (posted r @ posts, errs, failedLogs, n'))))"
  by pat_completeness auto
termination
  by (relation "measure (\<lambda>(gz, sumoLogger, outcome, n, ls). length ls)") auto

text \<open>
  The state of \<open>queueLogsForSending\<close>: the local \<open>logs\<close> (\<open>pending\<close>), the requests issued,
  the number of calls of \<open>makePostRequest\<close> and the errors logged.
\<close>

record forwarder =
  pending :: "sumoLog list"
  posts :: "sender_event list"
  calls :: nat
  forwarderLog :: "log_entry list"

definition sendLogs_driver ::
    "(int \<Rightarrow> byte list \<Rightarrow> byte list) \<Rightarrow> sumoLogger \<Rightarrow> (nat \<Rightarrow> attempt) \<Rightarrow> forwarder \<Rightarrow> forwarder option" where
  "sendLogs_driver gz sumoLogger outcome st =
     (case sendLoop gz sumoLogger outcome (calls st) (pending st) of
        None \<Rightarrow> None
      | Some (ps, errs, failedLogs, n') \<Rightarrow>
          Some \<lparr>pending = failedLogs, posts = posts st @ ps, calls = n',
                forwarderLog = forwarderLog st @ errs\<rparr>)"

text \<open>
  \<open>queueLogsForSending\<close>: a tick sends what is pending and keeps what failed; a record is
  appended and, when the count is a multiple of \<open>batchSize\<close>, everything pending is sent;
  the end of the list is \<open>logQueue\<close> closed, where the pending records are sent once more
  and the function returns.
\<close>

datatype queue_event = Incoming sumoLog | TimerTick

fun queueLogsForSending ::
    "(int \<Rightarrow> byte list \<Rightarrow> byte list) \<Rightarrow> sumoLogger \<Rightarrow> (nat \<Rightarrow> attempt) \<Rightarrow> forwarder \<Rightarrow> queue_event list
       \<Rightarrow> forwarder option" where
  "queueLogsForSending gz sumoLogger outcome st [] = sendLogs_driver gz sumoLogger outcome st"
| "queueLogsForSending gz sumoLogger outcome st (TimerTick # evs) =
     (case sendLogs_driver gz sumoLogger outcome st of
        None \<Rightarrow> None
      | Some st' \<Rightarrow> queueLogsForSending gz sumoLogger outcome st' evs)"
| "queueLogsForSending gz sumoLogger outcome st (Incoming log # evs) =
     (let st1 = st\<lparr>pending := pending st @ [log]\<rparr>
      in if batchSize sumoLogger = 0 then None
         else if int (length (pending st1)) mod batchSize sumoLogger = 0 then
           (case sendLogs_driver gz sumoLogger outcome st1 of
              None \<Rightarrow> None
            | Some st' \<Rightarrow> queueLogsForSending gz sumoLogger outcome st' evs)
         else queueLogsForSending gz sumoLogger outcome st1 evs)"

text \<open>The request \<open>makePostRequest\<close> builds for a non-empty list of records.\<close>

definition wireRequest :: "(int \<Rightarrow> byte list \<Rightarrow> byte list) \<Rightarrow> sumoLogger \<Rightarrow> sumoLog list \<Rightarrow> request" where
  "wireRequest gz lg ls =
     \<lparr>httpMethod = ''POST'', url = httpSourceUrl lg,
      header = (if gzipCompression lg
                then [(''Content-Type'', ''text/plain''), (''Content-Encoding'', ''gzip'')]
                else [(''Content-Type'', ''text/plain'')]),
      body = (if gzipCompression lg then gz (gzipCompressionLevel lg) (wire ls) else wire ls)\<rparr>"

section \<open>Pipeline manager: \<open>StartLogging\<close>, \<open>StopLogging\<close>\<close>

text \<open>
  What the driver asks of the outside: whether \<open>fifo.OpenFifo\<close> opens a path, what
  \<open>ioutil.ReadFile\<close> reads, and the parsers \<open>strconv.ParseInt\<close> (base 10, 32 bits),
  \<open>strconv.ParseBool\<close>, \<open>time.ParseDuration\<close> (nanoseconds) and \<open>url.Parse\<close>.
\<close>

record env =
  openFifo :: "string \<Rightarrow> bool"
  readFile :: "string \<Rightarrow> byte list option"
  parseInt :: "string \<Rightarrow> int option"
  parseBool :: "string \<Rightarrow> bool option"
  parseDuration :: "string \<Rightarrow> int option"
  parseUrl :: "string \<Rightarrow> string option"

type_synonym config = "string \<rightharpoonup> string"

definition logOptUrl :: string where "logOptUrl = ''sumo-url''"
definition logOptGzipCompression :: string where "logOptGzipCompression = ''sumo-compress''"
definition logOptGzipCompressionLevel :: string where "logOptGzipCompressionLevel = ''sumo-compress-level''"
definition logOptProxyUrl :: string where "logOptProxyUrl = ''sumo-proxy-url''"
definition logOptInsecureSkipVerify :: string where "logOptInsecureSkipVerify = ''sumo-insecure-skip-verify''"
definition logOptRootCaPath :: string where "logOptRootCaPath = ''sumo-root-ca-path''"
definition logOptServerName :: string where "logOptServerName = ''sumo-server-name''"
definition logOptSendingInterval :: string where "logOptSendingInterval = ''sumo-sending-interval''"
definition logOptQueueSize :: string where "logOptQueueSize = ''sumo-queue-size''"
definition logOptBatchSize :: string where "logOptBatchSize = ''sumo-batch-size''"

definition defaultGzipCompression :: bool where "defaultGzipCompression = False"
definition defaultGzipCompressionLevel :: int where "defaultGzipCompressionLevel = - 1"
definition defaultInsecureSkipVerify :: bool where "defaultInsecureSkipVerify = False"
definition defaultSendingInterval :: int where "defaultSendingInterval = 2 * 1000000000"
definition defaultQueueSize :: int where "defaultQueueSize = 4000"
definition defaultBatchSize :: int where "defaultBatchSize = 1000"

text \<open>Each option parser returns the value and what it logged.\<close>

definition parseLogOptInt :: "env \<Rightarrow> config \<Rightarrow> string \<Rightarrow> int \<Rightarrow> int \<times> log_entry list" where
  "parseLogOptInt e cfg logOptKey defaultValue =
     (case cfg logOptKey of
        Some input \<Rightarrow>
          (case parseInt e input of
             None \<Rightarrow> (defaultValue, [Error (''Failed to parse value as integer: '' @ logOptKey)])
           | Some inputValue \<Rightarrow> (inputValue, []))
      | None \<Rightarrow> (defaultValue, []))"

definition parseLogOptDuration :: "env \<Rightarrow> config \<Rightarrow> string \<Rightarrow> int \<Rightarrow> int \<times> log_entry list" where
  "parseLogOptDuration e cfg logOptKey defaultValue =
     (case cfg logOptKey of
        Some input \<Rightarrow>
          (case parseDuration e input of
             None \<Rightarrow> (defaultValue, [Error (''Failed to parse value as duration: '' @ logOptKey)])
           | Some inputValue \<Rightarrow> (inputValue, []))
      | None \<Rightarrow> (defaultValue, []))"

definition parseLogOptBoolean :: "env \<Rightarrow> config \<Rightarrow> string \<Rightarrow> bool \<Rightarrow> bool \<times> log_entry list" where
  "parseLogOptBoolean e cfg logOptKey defaultValue =
     (case cfg logOptKey of
        Some input \<Rightarrow>
          (case parseBool e input of
             None \<Rightarrow> (defaultValue, [Error (''Failed to parse value as boolean: '' @ logOptKey)])
           | Some inputValue \<Rightarrow> (inputValue, []))
      | None \<Rightarrow> (defaultValue, []))"

definition parseLogOptProxyUrl ::
    "env \<Rightarrow> config \<Rightarrow> string \<Rightarrow> string option \<Rightarrow> string option \<times> log_entry list" where
  "parseLogOptProxyUrl e cfg logOptKey defaultValue =
     (case cfg logOptKey of
        Some input \<Rightarrow>
          (case parseUrl e input of
             None \<Rightarrow> (defaultValue, [Error (''Failed to parse value as url: '' @ logOptKey)])
           | Some inputValue \<Rightarrow> (Some inputValue, []))
      | None \<Rightarrow> (defaultValue, []))"

text \<open>
  The driver: the registry \<open>loggers\<close>, and what its calls have done to the outside: the
  fifos opened, the input files closed, the goroutines started (function and file) and
  the errors logged. The mutex guards the two accesses to the map; a call is taken here
  as a whole, with no other call in between. The test of the sending interval against
  \<open>time.ParseDuration("0s")\<close> is read as a test against zero.
\<close>

datatype goroutine = ConsumeLogsFromFile | QueueLogsForSending

record sumoDriver =
  loggers :: "string \<rightharpoonup> sumoLogger"
  fifosOpened :: "string list"
  filesClosed :: "string list"
  goroutines :: "(goroutine \<times> string) list"
  errorLog :: "log_entry list"

definition newSumoDriver :: sumoDriver where
  "newSumoDriver = \<lparr>loggers = Map.empty, fifosOpened = [], filesClosed = [],
                     goroutines = [], errorLog = []\<rparr>"

definition startLoggingInternal ::
    "env \<Rightarrow> sumoDriver \<Rightarrow> string \<Rightarrow> config \<Rightarrow> (error + sumoLogger) \<times> sumoDriver" where
  "startLoggingInternal e drv file cfg =
     (case loggers drv file of
        Some existing \<Rightarrow> (Inl (AlreadyExists file), drv)
      | None \<Rightarrow>
          if \<not> openFifo e file then (Inl (FifoOpenError file), drv)
          else
            (let drv1 = drv\<lparr>fifosOpened := fifosOpened drv @ [file]\<rparr>;
                 (compress, log1) = parseLogOptBoolean e cfg logOptGzipCompression defaultGzipCompression;
                 (lvl0, log2) = parseLogOptInt e cfg logOptGzipCompressionLevel defaultGzipCompressionLevel;
                 (lvl, log3) = (if lvl0 < defaultGzipCompressionLevel \<or> lvl0 > 9
                                then (defaultGzipCompressionLevel,
                                      [Error ''Not supported level. Using default compression.''])
                                else (lvl0, []));
                 (skipVerify, log4) = parseLogOptBoolean e cfg logOptInsecureSkipVerify defaultInsecureSkipVerify
             in case (case cfg logOptRootCaPath of
                        None \<Rightarrow> Inr None
                      | Some rootCaPath \<Rightarrow>
                          (case readFile e rootCaPath of
                             None \<Rightarrow> Inl (ReadFileError rootCaPath)
                           | Some rootCa \<Rightarrow> Inr (Some rootCa))) of
                  Inl err \<Rightarrow> (Inl err, drv1\<lparr>errorLog := errorLog drv1 @ log1 @ log2 @ log3 @ log4\<rparr>)
                | Inr rootCaPool \<Rightarrow>
                    (let serverName = (case cfg logOptServerName of None \<Rightarrow> [] | Some n \<Rightarrow> n);
                         (proxy, log5) = parseLogOptProxyUrl e cfg logOptProxyUrl None;
                         (interval0, log6) = parseLogOptDuration e cfg logOptSendingInterval defaultSendingInterval;
                         (interval, log7) = (if interval0 \<le> 0
                                             then (defaultSendingInterval,
                                                   [Error ''sumo-sending-interval must be a positive duration. Using default.''])
                                             else (interval0, []));
                         (queueSize0, log8) = parseLogOptInt e cfg logOptQueueSize defaultQueueSize;
                         (queueSize, log9) = (if queueSize0 \<le> 0
                                              then (defaultQueueSize,
                                                    [Error ''sumo-queue-size must be a positive value. Using default.''])
                                              else (queueSize0, []));
                         (batchSize0, log10) = parseLogOptInt e cfg logOptBatchSize defaultBatchSize;
                         (batchSize1, log11) = (if batchSize0 \<le> 0
                                                then (defaultBatchSize,
                                                      [Error ''sumo-batch-size must be a positive value. Using default.''])
                                                else (batchSize0, []));
                         newSumoLogger =
                           \<lparr>httpSourceUrl = (case cfg logOptUrl of None \<Rightarrow> [] | Some u \<Rightarrow> u),
                            proxyUrl = proxy,
                            tlsConfig = \<lparr>InsecureSkipVerify = skipVerify, RootCAs = rootCaPool,
                                         ServerName = serverName\<rparr>,
                            gzipCompression = compress,
                            gzipCompressionLevel = lvl,
                            inputQueueFile = file,
                            logQueueSize = queueSize,
                            sendingInterval = interval,
                            batchSize = batchSize1\<rparr>
                     in (Inr newSumoLogger,
                         drv1\<lparr>loggers := (loggers drv1)(file \<mapsto> newSumoLogger),
                              errorLog := errorLog drv1 @ log1 @ log2 @ log3 @ log4 @ log5 @ log6
                                          @ log7 @ log8 @ log9 @ log10 @ log11\<rparr>))))"

definition StartLogging :: "env \<Rightarrow> sumoDriver \<Rightarrow> string \<Rightarrow> config \<Rightarrow> error option \<times> sumoDriver" where
  "StartLogging e drv file cfg =
     (case startLoggingInternal e drv file cfg of
        (Inl err, drv') \<Rightarrow> (Some err, drv')
      | (Inr newSumoLogger, drv') \<Rightarrow>
          (None, drv'\<lparr>goroutines := goroutines drv'
                          @ [(ConsumeLogsFromFile, file), (QueueLogsForSending, file)]\<rparr>))"

definition StopLogging :: "sumoDriver \<Rightarrow> string \<Rightarrow> error option \<times> sumoDriver" where
  "StopLogging drv file =
     (case loggers drv file of
        Some sumoLogger \<Rightarrow>
          (None, drv\<lparr>filesClosed := filesClosed drv @ [inputQueueFile sumoLogger],
                     loggers := (loggers drv)(file := None)\<rparr>)
      | None \<Rightarrow> (None, drv))"

text \<open>A driver with one active logger, for the worked scenarios.\<close>

definition env0 :: env where
  "env0 = \<lparr>openFifo = (\<lambda>p. True), readFile = (\<lambda>p. None), parseInt = (\<lambda>p. None),
           parseBool = (\<lambda>p. None), parseDuration = (\<lambda>p. None), parseUrl = (\<lambda>p. None)\<rparr>"

definition logger0 :: sumoLogger where
  "logger0 = \<lparr>httpSourceUrl = ''https://collector'', proxyUrl = None,
              tlsConfig = \<lparr>InsecureSkipVerify = False, RootCAs = None, ServerName = []\<rparr>,
              gzipCompression = False, gzipCompressionLevel = - 1,
              inputQueueFile = ''/run/a'', logQueueSize = 4000,
              sendingInterval = 2000000000, batchSize = 1000\<rparr>"

definition driver0 :: sumoDriver where
  "driver0 = newSumoDriver\<lparr>loggers := [''/run/a'' \<mapsto> logger0], fifosOpened := [''/run/a''],
                           goroutines := [(ConsumeLogsFromFile, ''/run/a''),
                                          (QueueLogsForSending, ''/run/a'')]\<rparr>"


text \<open>A batcher state with its log forgotten, to compare two runs up to what they logged.\<close>

definition strip_logged :: "batcher \<Rightarrow> batcher" where
  "strip_logged st = st\<lparr>logged := []\<rparr>"

text \<open>A record of \<open>n\<close> payload bytes, for the worked scenarios.\<close>

definition sample :: "nat \<Rightarrow> sumoLog" where
  "sample n = \<lparr>line = replicate n 120, source = ''stdout'', time = [], isPartial = False\<rparr>"

section \<open>Decoder: what a failed read leaves on the record queue\<close>

text \<open>
  C1. The claim is that a corrupted frame followed by a valid frame yields no record for
  the corrupted frame. Evaluated on exactly that stream, the loop logs the error and
  makes a new reader, and then sends two records: first one built from the reset message
  buffer (empty payload, empty source, time zero), then the record of the valid frame.
\<close>

theorem consumeLogsFromFile_corrupt_then_valid:
  "consumeLogsFromFile fmtTime [ReadErr None, ReadOk e] =
     \<lparr>logQueue = [\<lparr>line = [], source = [], time = fmtTime 0, isPartial = False\<rparr>,
                  \<lparr>line = Line e, source = Source e, time = fmtTime (TimeNano e),
                   isPartial = Partial e\<rparr>],
      errorsLogged = 1, readersCreated = 2,
      inputFileClosed = True, logQueueClosed = True\<rparr>"
  by (simp add: consumeLogsFromFile_def LogEntry_Reset_def)

section \<open>Batcher: invariants of the loop\<close>

lemma sample_size: "int (length (line (sample n))) = int n"
  by (simp add: sample_def)

lemma payload_Nil: "payload [] = 0"
  by (simp add: payload_def)



lemma payload_nonneg: "0 \<le> payload xs"
  by (induction xs) (simp_all add: payload_def)

lemma pushBatchToQueue_room:
  assumes "length (logBatchQueue st) < cap"
  shows "pushBatchToQueue cap k st =
           Some (st\<lparr>logBatchQueue := logBatchQueue st @ [logs (logBatch st)],
                    handedOff := handedOff st @ [logs (logBatch st)],
                    logBatch := Reset (logBatch st)\<rparr>)"
  using assms by (simp add: pushBatchToQueue_def)

lemma pushBatchToQueue_full:
  assumes "length (logBatchQueue st) = cap" "k < cap"
  shows "pushBatchToQueue cap k st =
           Some (st\<lparr>logBatchQueue := tl (drop k (logBatchQueue st)) @ [logs (logBatch st)],
                    received := received st @ take k (logBatchQueue st),
                    evicted := evicted st @ [hd (drop k (logBatchQueue st))],
                    logged := logged st @ [Error ''log batch queue full, dropping oldest batch''],
                    handedOff := handedOff st @ [logs (logBatch st)],
                    logBatch := Reset (logBatch st)\<rparr>)"
proof -
  have "drop k (logBatchQueue st) \<noteq> []" using assms by simp
  then obtain oldest rest where d: "drop k (logBatchQueue st) = oldest # rest"
    by (cases "drop k (logBatchQueue st)") auto
  have "length (drop k (logBatchQueue st)) \<le> cap" using assms by simp
  then have "length rest < cap" using d by simp
  then show ?thesis using assms(1) d by (simp add: pushBatchToQueue_def)
qed

lemma pushBatchToQueue_SomeD:
  assumes "pushBatchToQueue cap k st = Some st'" "length (logBatchQueue st) \<le> cap"
  shows "handedOff st' = handedOff st @ [logs (logBatch st)] \<and>
         logBatch st' = Reset (logBatch st) \<and>
         length (logBatchQueue st') \<le> cap \<and>
         logBatchQueueClosed st' = logBatchQueueClosed st \<and>
         (\<exists>n. logBatchQueue st' = drop n (logBatchQueue st) @ [logs (logBatch st)] \<and>
              n \<le> length (logBatchQueue st) \<and>
              length (received st') + length (evicted st')
                = length (received st) + length (evicted st) + n)"
proof (cases "length (logBatchQueue st) < cap")
  case True
  then have "st' = st\<lparr>logBatchQueue := logBatchQueue st @ [logs (logBatch st)],
                    handedOff := handedOff st @ [logs (logBatch st)],
                    logBatch := Reset (logBatch st)\<rparr>"
    using assms(1) pushBatchToQueue_room[OF True, of k] by simp
  then show ?thesis using True by (auto intro: exI[of _ 0])
next
  case False
  then obtain oldest rest where d: "drop k (logBatchQueue st) = oldest # rest"
    using assms(1) by (cases "drop k (logBatchQueue st)") (auto simp: pushBatchToQueue_def)
  have kl: "k < length (logBatchQueue st)" using d by (cases "k < length (logBatchQueue st)") auto
  have rest: "rest = drop (Suc k) (logBatchQueue st)"
    using d by (metis drop_Suc list.sel(3) tl_drop)
  have lr: "length rest < cap" using assms(2) kl rest by simp
  have st': "st' = st\<lparr>logBatchQueue := rest @ [logs (logBatch st)],
                        received := received st @ take k (logBatchQueue st),
                        evicted := evicted st @ [oldest],
                        logged := logged st @ [Error ''log batch queue full, dropping oldest batch''],
                        handedOff := handedOff st @ [logs (logBatch st)],
                        logBatch := Reset (logBatch st)\<rparr>"
    using assms(1) False d lr by (simp add: pushBatchToQueue_def)
  have "logBatchQueue st' = drop (Suc k) (logBatchQueue st) @ [logs (logBatch st)] \<and>
        Suc k \<le> length (logBatchQueue st) \<and>
        length (received st') + length (evicted st')
          = length (received st) + length (evicted st) + Suc k"
    using st' rest kl by (simp add: min_def)
  then have "\<exists>n. logBatchQueue st' = drop n (logBatchQueue st) @ [logs (logBatch st)] \<and>
              n \<le> length (logBatchQueue st) \<and>
              length (received st') + length (evicted st')
                = length (received st) + length (evicted st) + n"
    by blast
  then show ?thesis using st' lr by simp
qed

lemma pushBatchToQueue_Some:
  assumes "0 < cap" "length (logBatchQueue st) \<le> cap" "k < cap"
  shows "\<exists>st'. pushBatchToQueue cap k st = Some st'"
proof (cases "length (logBatchQueue st) < cap")
  case True
  then show ?thesis using pushBatchToQueue_room[OF True] by simp
next
  case False
  with assms(2) have "length (logBatchQueue st) = cap" by simp
  from pushBatchToQueue_full[OF this assms(3)] show ?thesis by simp
qed


lemma records_Cons: "records (ev # evs) = records [ev] @ records evs"
  by (cases ev) simp_all

lemma records_append: "records (xs @ ys) = records xs @ records ys"
proof (induction xs)
  case Nil
  show ?case by simp
next
  case (Cons ev xs)
  then show ?case by (cases ev) simp_all
qed

lemma batchLoop_append:
  "batchLoop cap bs w st (xs @ ys) =
     (case batchLoop cap bs w st xs of None \<Rightarrow> None | Some s \<Rightarrow> batchLoop cap bs w s ys)"
  by (induction xs arbitrary: st) (auto split: option.splits)

lemma batchStep_SomeD:
  assumes "batchStep cap bs w st ev = Some st'" "length (logBatchQueue st) \<le> cap"
  shows "length (logBatchQueue st') \<le> cap \<and>
         concat (handedOff st') @ logs (logBatch st')
           = concat (handedOff st) @ logs (logBatch st) @ filter (fits bs) (records [ev])"
proof (cases ev)
  case (Log l)
  show ?thesis
  proof (cases "int (length (line l)) > bs")
    case True
    then show ?thesis using Log assms by (auto simp: fits_def)
  next
    case False
    show ?thesis
    proof (cases "sizeBytes (logBatch st) + int (length (line l)) > bs")
      case True
      then obtain p where p: "pushBatchToQueue cap (w (length (handedOff st))) st = Some p"
        using Log False assms(1) by (auto split: option.splits)
      from pushBatchToQueue_SomeD[OF p assms(2)] have
        pp: "handedOff p = handedOff st @ [logs (logBatch st)]"
            "logBatch p = Reset (logBatch st)" "length (logBatchQueue p) \<le> cap" by simp_all
      show ?thesis using Log False True assms(1) p pp by (auto simp: fits_def Reset_def)
    next
      case F2: False
      then show ?thesis using Log False assms by (auto simp: fits_def)
    qed
  qed
next
  case Tick
  show ?thesis
  proof (cases "length (logs (logBatch st)) > 0")
    case True
    then have p: "pushBatchToQueue cap (w (length (handedOff st))) st = Some st'"
      using Tick assms(1) by simp
    from pushBatchToQueue_SomeD[OF p assms(2)] show ?thesis
      using Tick by (simp add: Reset_def)
  next
    case False
    then show ?thesis using Tick assms by simp
  qed
next
  case SenderReceives
  then show ?thesis using assms by (cases "logBatchQueue st") auto
qed

lemma batchStep_Some:
  assumes "0 < cap" "length (logBatchQueue st) \<le> cap" "\<forall>n. w n < cap"
  shows "\<exists>st'. batchStep cap bs w st ev = Some st'"
proof -
  have "w (length (handedOff st)) < cap" using assms(3) by simp
  from pushBatchToQueue_Some[OF assms(1,2) this] obtain p where
    p: "pushBatchToQueue cap (w (length (handedOff st))) st = Some p" by blast
  show ?thesis
  proof (cases ev)
    case (Log l)
    then show ?thesis using p by simp
  next
    case Tick
    then show ?thesis using p by simp
  next
    case SenderReceives
    then show ?thesis by (cases "logBatchQueue st") auto
  qed
qed



lemma push_keeps_queue_relation:
  assumes "pushBatchToQueue cap k st = Some p" "length (logBatchQueue st) \<le> cap"
    and "length (received st) + length (evicted st) \<le> length (handedOff st)"
    and "logBatchQueue st = drop (length (received st) + length (evicted st)) (handedOff st)"
  shows "length (received p) + length (evicted p) \<le> length (handedOff p) \<and>
         logBatchQueue p = drop (length (received p) + length (evicted p)) (handedOff p)"
proof -
  from pushBatchToQueue_SomeD[OF assms(1,2)] obtain n where
    h: "handedOff p = handedOff st @ [logs (logBatch st)]"
    and q: "logBatchQueue p = drop n (logBatchQueue st) @ [logs (logBatch st)]"
    and n: "n \<le> length (logBatchQueue st)"
    and c: "length (received p) + length (evicted p)
              = length (received st) + length (evicted st) + n"
    by blast
  let ?m = "length (received st) + length (evicted st)"
  have len: "length (logBatchQueue st) = length (handedOff st) - ?m"
    using assms(4) by (metis length_drop)
  have le: "?m + n \<le> length (handedOff st)" using n len assms(3) by simp
  have "drop (?m + n) (handedOff st @ [logs (logBatch st)])
          = drop n (drop ?m (handedOff st)) @ [logs (logBatch st)]"
    using le by (simp add: add.commute)
  then show ?thesis using h q c le assms(4) by simp
qed


lemma batchLoop_SomeD:
  "batchLoop cap bs w st evs = Some st' \<Longrightarrow> length (logBatchQueue st) \<le> cap \<Longrightarrow>
     length (logBatchQueue st') \<le> cap \<and>
     concat (handedOff st') @ logs (logBatch st')
       = concat (handedOff st) @ logs (logBatch st) @ filter (fits bs) (records evs)"
proof (induction evs arbitrary: st)
  case Nil
  then show ?case by simp
next
  case (Cons ev evs)
  from Cons.prems(1) obtain s where
    s: "batchStep cap bs w st ev = Some s" "batchLoop cap bs w s evs = Some st'"
    by (auto split: option.splits)
  from batchStep_SomeD[OF s(1) Cons.prems(2)] have
    s1: "length (logBatchQueue s) \<le> cap"
    and s2: "concat (handedOff s) @ logs (logBatch s)
          = concat (handedOff st) @ logs (logBatch st) @ filter (fits bs) (records [ev])"
    by simp_all
  from Cons.IH[OF s(2) s1] have
    t1: "length (logBatchQueue st') \<le> cap"
    and t2: "concat (handedOff st') @ logs (logBatch st')
          = concat (handedOff s) @ logs (logBatch s) @ filter (fits bs) (records evs)"
    by simp_all
  have "concat (handedOff st') @ logs (logBatch st')
          = (concat (handedOff s) @ logs (logBatch s)) @ filter (fits bs) (records evs)"
    using t2 by simp
  also have "\<dots> = concat (handedOff st) @ logs (logBatch st) @ filter (fits bs) (records (ev # evs))"
    unfolding s2 records_Cons[of ev evs] by simp
  finally show ?case using t1 by simp
qed

lemma batchLoop_Some:
  assumes "0 < cap" "\<forall>n. w n < cap"
  shows "length (logBatchQueue st) \<le> cap \<Longrightarrow> \<exists>st'. batchLoop cap bs w st evs = Some st'"
proof (induction evs arbitrary: st)
  case Nil
  then show ?case by simp
next
  case (Cons ev evs)
  from batchStep_Some[OF assms(1) Cons.prems assms(2), of bs ev] obtain s where
    s: "batchStep cap bs w st ev = Some s" by blast
  have "length (logBatchQueue s) \<le> cap" using batchStep_SomeD[OF s Cons.prems] by simp
  from Cons.IH[OF this] show ?case using s by simp
qed





lemma batchStep_queue_relation:
  assumes "batchStep cap bs w st ev = Some st'" "length (logBatchQueue st) \<le> cap"
    and "length (received st) + length (evicted st) \<le> length (handedOff st)"
    and "logBatchQueue st = drop (length (received st) + length (evicted st)) (handedOff st)"
  shows "length (received st') + length (evicted st') \<le> length (handedOff st') \<and>
         logBatchQueue st' = drop (length (received st') + length (evicted st')) (handedOff st')"
proof (cases ev)
  case (Log l)
  show ?thesis
  proof (cases "int (length (line l)) > bs")
    case True
    then have "st' = st\<lparr>logged := logged st @ [Warn ''Log is too large to batch, dropping log.'']\<rparr>"
      using Log assms(1) by simp
    then show ?thesis using assms(3,4) by simp
  next
    case False
    show ?thesis
    proof (cases "sizeBytes (logBatch st) + int (length (line l)) > bs")
      case True
      from True Log False assms(1) obtain p where
        p: "pushBatchToQueue cap (w (length (handedOff st))) st = Some p"
        by (auto split: option.splits)
      have st': "st' = p\<lparr>logBatch := (logBatch p)\<lparr>logs := logs (logBatch p) @ [l],
                      sizeBytes := sizeBytes (logBatch p) + int (length (line l))\<rparr>\<rparr>"
        using Log False True assms(1) p by simp
      from push_keeps_queue_relation[OF p assms(2,3,4)] show ?thesis using st' by simp
    next
      case F2: False
      then have "st' = st\<lparr>logBatch := (logBatch st)\<lparr>logs := logs (logBatch st) @ [l],
                      sizeBytes := sizeBytes (logBatch st) + int (length (line l))\<rparr>\<rparr>"
        using Log False assms(1) by simp
      then show ?thesis using assms(3,4) by simp
    qed
  qed
next
  case Tick
  show ?thesis
  proof (cases "length (logs (logBatch st)) > 0")
    case True
    then have "pushBatchToQueue cap (w (length (handedOff st))) st = Some st'"
      using Tick assms(1) by simp
    from push_keeps_queue_relation[OF this assms(2,3,4)] show ?thesis .
  next
    case False
    then have "st' = st" using Tick assms(1) by simp
    then show ?thesis using assms(3,4) by simp
  qed
next
  case SenderReceives
  show ?thesis
  proof (cases "logBatchQueue st")
    case Nil
    then have "st' = st" using SenderReceives assms(1) by simp
    then show ?thesis using assms(3,4) by simp
  next
    case (Cons b rest)
    then have st': "st' = st\<lparr>logBatchQueue := rest, received := received st @ [b]\<rparr>"
      using SenderReceives assms(1) by simp
    let ?m = "length (received st) + length (evicted st)"
    have d: "drop ?m (handedOff st) = b # rest" using assms(4) Cons by simp
    then have lt: "?m < length (handedOff st)" by (cases "?m < length (handedOff st)") auto
    have r: "rest = drop (Suc ?m) (handedOff st)"
      using d by (metis drop_Suc list.sel(3) tl_drop)
    show ?thesis using st' lt r by simp
  qed
qed

lemma batchLoop_queue_relation:
  "batchLoop cap bs w st evs = Some st' \<Longrightarrow> length (logBatchQueue st) \<le> cap \<Longrightarrow>
   length (received st) + length (evicted st) \<le> length (handedOff st) \<Longrightarrow>
   logBatchQueue st = drop (length (received st) + length (evicted st)) (handedOff st) \<Longrightarrow>
     length (received st') + length (evicted st') \<le> length (handedOff st') \<and>
     logBatchQueue st' = drop (length (received st') + length (evicted st')) (handedOff st')"
proof (induction evs arbitrary: st)
  case Nil
  then show ?case by simp
next
  case (Cons ev evs)
  from Cons.prems(1) obtain s where
    s: "batchStep cap bs w st ev = Some s" "batchLoop cap bs w s evs = Some st'"
    by (auto split: option.splits)
  have q: "length (logBatchQueue s) \<le> cap" using batchStep_SomeD[OF s(1) Cons.prems(2)] by simp
  from batchStep_queue_relation[OF s(1) Cons.prems(2,3,4)] have
    r: "length (received s) + length (evicted s) \<le> length (handedOff s)"
       "logBatchQueue s = drop (length (received s) + length (evicted s)) (handedOff s)"
    by simp_all
  show ?case using Cons.IH[OF s(2) q r] .
qed




text \<open>
  A run the hypothesis on \<open>window\<close> excludes: capacity one, the buffer full, and the Sender
  receiving its batch between the failed \<open>select\<close> and the receive of the \<open>default\<close>
  branch. The Batcher then waits on an empty channel that only it sends on.
\<close>

lemma batchLoop_blocked_when_sender_empties_buffer:
  "batchLoop 1 100 (\<lambda>n. 1) batcher_init [Log (sample 100), Log (sample 100), Log (sample 100)] = None"
  by (simp add: sample_size batcher_init_def NewSumoLogBatch_def pushBatchToQueue_def Reset_def)


lemma strip_logged_eqD:
  "strip_logged s = strip_logged t \<Longrightarrow> t = s\<lparr>logged := logged t\<rparr>"
  by (cases s, cases t) (simp add: strip_logged_def)

lemma pushBatchToQueue_logged:
  "map_option strip_logged (pushBatchToQueue cap k (s\<lparr>logged := L\<rparr>))
     = map_option strip_logged (pushBatchToQueue cap k s)"
  by (cases "drop k (logBatchQueue s)") (simp_all add: pushBatchToQueue_def strip_logged_def)

lemma batchStep_logged:
  "map_option strip_logged (batchStep cap bs w (s\<lparr>logged := L\<rparr>) ev)
     = map_option strip_logged (batchStep cap bs w s ev)"
proof (cases ev)
  case (Log l)
  let ?k = "w (length (handedOff s))"
  show ?thesis
  proof (cases "pushBatchToQueue cap ?k s")
    case None
    then have "pushBatchToQueue cap ?k (s\<lparr>logged := L\<rparr>) = None"
      using pushBatchToQueue_logged[where cap=cap and k="?k" and s=s and L=L] by simp
    then show ?thesis using Log None by (simp add: strip_logged_def)
  next
    case (Some p)
    then obtain p' where p': "pushBatchToQueue cap ?k (s\<lparr>logged := L\<rparr>) = Some p'"
      "strip_logged p' = strip_logged p"
      using pushBatchToQueue_logged[where cap=cap and k="?k" and s=s and L=L]
      by (cases "pushBatchToQueue cap ?k (s\<lparr>logged := L\<rparr>)") auto
    have "p = p'\<lparr>logged := logged p\<rparr>" using strip_logged_eqD[OF p'(2)] .
    then obtain Lp where "p = p'\<lparr>logged := Lp\<rparr>" ..
    then show ?thesis using Log Some p'(1) by (simp add: strip_logged_def)
  qed
next
  case Tick
  then show ?thesis
    using pushBatchToQueue_logged[where cap=cap and k="w (length (handedOff s))" and s=s and L=L]
    by (simp add: strip_logged_def)
next
  case SenderReceives
  then show ?thesis by (cases "logBatchQueue s") (simp_all add: strip_logged_def)
qed

lemma batchLoop_logged:
  "strip_logged s = strip_logged t \<Longrightarrow>
     map_option strip_logged (batchLoop cap bs w s evs) = map_option strip_logged (batchLoop cap bs w t evs)"
proof (induction evs arbitrary: s t)
  case Nil
  then show ?case by simp
next
  case (Cons ev evs)
  have t: "t = s\<lparr>logged := logged t\<rparr>" using strip_logged_eqD[OF Cons.prems] .
  have step: "map_option strip_logged (batchStep cap bs w t ev) = map_option strip_logged (batchStep cap bs w s ev)"
    using batchStep_logged[where cap=cap and bs=bs and w=w and s=s and L="logged t" and ev=ev] t by simp
  show ?case
  proof (cases "batchStep cap bs w s ev")
    case None
    then have "batchStep cap bs w t ev = None" using step by simp
    then show ?thesis using None by simp
  next
    case (Some s')
    then obtain t' where t': "batchStep cap bs w t ev = Some t'" "strip_logged s' = strip_logged t'"
      using step by (cases "batchStep cap bs w t ev") auto
    show ?thesis using Some t'(1) Cons.IH[OF t'(2)] by simp
  qed
qed

lemma closeFlush_logged:
  "strip_logged s = strip_logged t \<Longrightarrow>
     map_option strip_logged (closeFlush cap s) = map_option strip_logged (closeFlush cap t)"
proof -
  assume "strip_logged s = strip_logged t"
  then have "t = s\<lparr>logged := logged t\<rparr>" by (rule strip_logged_eqD)
  then obtain L where "t = s\<lparr>logged := L\<rparr>" ..
  then show ?thesis by (simp add: closeFlush_def strip_logged_def)
qed

lemma pushBatchToQueue_logged_mono:
  "pushBatchToQueue cap k s = Some t \<Longrightarrow> set (logged s) \<subseteq> set (logged t)"
  by (cases "drop k (logBatchQueue s)") (auto simp: pushBatchToQueue_def split: if_splits)

lemma batchStep_logged_mono:
  "batchStep cap bs w s ev = Some t \<Longrightarrow> set (logged s) \<subseteq> set (logged t)"
proof (cases ev)
  case (Log l)
  assume a: "batchStep cap bs w s ev = Some t"
  show ?thesis
  proof (cases "pushBatchToQueue cap (w (length (handedOff s))) s")
    case None
    then show ?thesis using a Log by (auto split: if_splits)
  next
    case (Some p)
    then show ?thesis using a Log pushBatchToQueue_logged_mono[OF Some]
      by (auto split: if_splits)
  qed
next
  case Tick
  assume "batchStep cap bs w s ev = Some t"
  then show ?thesis using Tick pushBatchToQueue_logged_mono[of cap "w (length (handedOff s))" s t]
    by (auto split: if_splits)
next
  case SenderReceives
  assume "batchStep cap bs w s ev = Some t"
  then show ?thesis using SenderReceives by (cases "logBatchQueue s") auto
qed

lemma batchLoop_logged_mono:
  "batchLoop cap bs w s evs = Some t \<Longrightarrow> set (logged s) \<subseteq> set (logged t)"
proof (induction evs arbitrary: s)
  case Nil
  then show ?case by simp
next
  case (Cons ev evs)
  from Cons.prems obtain s' where
    s': "batchStep cap bs w s ev = Some s'" "batchLoop cap bs w s' evs = Some t"
    by (auto split: option.splits)
  show ?case using batchStep_logged_mono[OF s'(1)] Cons.IH[OF s'(2)] by blast
qed

text \<open>
  C5. A record whose payload is longer than the threshold changes nothing but the log:
  the step appends the warning and leaves the batch, the queue and every trace as they
  were. A run with such a record anywhere in it behaves, the log apart, as the run
  without it, blocked or not, up to and including the final send. Whenever the loop has
  come through, the batches sent followed by the pending batch are exactly the records
  before and after it that are within the threshold, in arrival order, so every fitting
  record is kept and the oversized one is in no batch; the warning is in the log; the
  buffer holds exactly the batches sent that have not left it. The loop comes through if
  the Sender never empties a full buffer inside a call of \<open>pushBatchToQueue\<close>.
\<close>

theorem batchLogs_drops_oversized:
  assumes "0 < cap" and "threshold < int (length (line l))"
  shows "(\<forall>s. batchStep cap threshold window s (Log l) =
              Some (s\<lparr>logged := logged s @ [Warn ''Log is too large to batch, dropping log.'']\<rparr>)) \<and>
         map_option strip_logged (batchLoop cap threshold window batcher_init (pre @ Log l # post))
           = map_option strip_logged (batchLoop cap threshold window batcher_init (pre @ post)) \<and>
         map_option strip_logged (batchLogs cap threshold window (pre @ Log l # post))
           = map_option strip_logged (batchLogs cap threshold window (pre @ post)) \<and>
         (\<forall>st. batchLoop cap threshold window batcher_init (pre @ Log l # post) = Some st \<longrightarrow>
            concat (handedOff st) @ logs (logBatch st)
              = filter (fits threshold) (records pre) @ filter (fits threshold) (records post) \<and>
            l \<notin> set (concat (handedOff st) @ logs (logBatch st)) \<and>
            Warn ''Log is too large to batch, dropping log.'' \<in> set (logged st) \<and>
            length (logBatchQueue st) \<le> cap \<and>
            logBatchQueue st = drop (length (received st) + length (evicted st)) (handedOff st)) \<and>
         ((\<forall>n. window n < cap) \<longrightarrow>
            (\<exists>st. batchLoop cap threshold window batcher_init (pre @ Log l # post) = Some st))"
proof -
  let ?w = "Warn ''Log is too large to batch, dropping log.''"
  have step: "\<forall>s. batchStep cap threshold window s (Log l) = Some (s\<lparr>logged := logged s @ [?w]\<rparr>)"
    using assms(2) by simp
  have q0: "length (logBatchQueue batcher_init) \<le> cap" by (simp add: batcher_init_def)
  have nofit: "\<not> fits threshold l" using assms(2) by (simp add: fits_def)
  have loops: "map_option strip_logged (batchLoop cap threshold window batcher_init (pre @ Log l # post))
           = map_option strip_logged (batchLoop cap threshold window batcher_init (pre @ post))"
  proof (cases "batchLoop cap threshold window batcher_init pre")
    case None
    then show ?thesis by (simp add: batchLoop_append)
  next
    case (Some s1)
    have "strip_logged (s1\<lparr>logged := logged s1 @ [?w]\<rparr>) = strip_logged s1"
      by (simp add: strip_logged_def)
    from batchLoop_logged[OF this, of cap threshold window post]
    show ?thesis using Some assms(2) by (simp add: batchLoop_append)
  qed
  have closes: "map_option strip_logged (batchLogs cap threshold window (pre @ Log l # post))
           = map_option strip_logged (batchLogs cap threshold window (pre @ post))"
  proof (cases "batchLoop cap threshold window batcher_init (pre @ Log l # post)")
    case None
    then have "batchLoop cap threshold window batcher_init (pre @ post) = None"
      using loops by simp
    then show ?thesis using None by (simp add: batchLogs_def)
  next
    case (Some st)
    then obtain st0 where st0: "batchLoop cap threshold window batcher_init (pre @ post) = Some st0"
      "strip_logged st = strip_logged st0"
      using loops by (cases "batchLoop cap threshold window batcher_init (pre @ post)") auto
    show ?thesis using closeFlush_logged[OF st0(2), of cap] Some st0(1)
      by (simp add: batchLogs_def)
  qed
  have safe: "\<forall>st. batchLoop cap threshold window batcher_init (pre @ Log l # post) = Some st \<longrightarrow>
            concat (handedOff st) @ logs (logBatch st)
              = filter (fits threshold) (records pre) @ filter (fits threshold) (records post) \<and>
            l \<notin> set (concat (handedOff st) @ logs (logBatch st)) \<and>
            ?w \<in> set (logged st) \<and>
            length (logBatchQueue st) \<le> cap \<and>
            logBatchQueue st = drop (length (received st) + length (evicted st)) (handedOff st)"
  proof (intro allI impI)
    fix st
    assume run: "batchLoop cap threshold window batcher_init (pre @ Log l # post) = Some st"
    from batchLoop_SomeD[OF run q0] have
      qb: "length (logBatchQueue st) \<le> cap"
      and kept: "concat (handedOff st) @ logs (logBatch st)
              = filter (fits threshold) (records pre) @ filter (fits threshold) (records post)"
      using nofit by (simp_all add: batcher_init_def NewSumoLogBatch_def records_append)
    have absent: "l \<notin> set (concat (handedOff st) @ logs (logBatch st))"
      unfolding kept using nofit by simp
    from run obtain s1 where
      s1: "batchLoop cap threshold window batcher_init pre = Some s1"
          "batchLoop cap threshold window (s1\<lparr>logged := logged s1 @ [?w]\<rparr>) post = Some st"
      using assms(2) by (auto simp: batchLoop_append split: option.splits)
    have warned: "?w \<in> set (logged st)" using batchLoop_logged_mono[OF s1(2)] by auto
    have rel: "logBatchQueue st = drop (length (received st) + length (evicted st)) (handedOff st)"
      using batchLoop_queue_relation[OF run q0] by (simp add: batcher_init_def)
    show "concat (handedOff st) @ logs (logBatch st)
              = filter (fits threshold) (records pre) @ filter (fits threshold) (records post) \<and>
            l \<notin> set (concat (handedOff st) @ logs (logBatch st)) \<and>
            ?w \<in> set (logged st) \<and>
            length (logBatchQueue st) \<le> cap \<and>
            logBatchQueue st = drop (length (received st) + length (evicted st)) (handedOff st)"
      using kept absent warned qb rel by blast
  qed
  have live: "(\<forall>n. window n < cap) \<longrightarrow>
            (\<exists>st. batchLoop cap threshold window batcher_init (pre @ Log l # post) = Some st)"
    using batchLoop_Some[OF assms(1) _ q0] by blast
  show ?thesis using step loops closes safe live by blast
qed

theorem batchLogs_drops_oversized_witness:
  "0 < (2::nat) \<and> (250::int) < int (length (line (sample 300))) \<and>
   batchStep 2 250 (\<lambda>n. 0) batcher_init (Log (sample 300)) =
     Some (batcher_init\<lparr>logged := [Warn ''Log is too large to batch, dropping log.'']\<rparr>) \<and>
   batchLoop 2 250 (\<lambda>n. 0) batcher_init ([Log (sample 100)] @ Log (sample 300) # [Log (sample 200)]) =
     Some (batcher_init\<lparr>logBatch := \<lparr>logs = [sample 200], sizeBytes = 200\<rparr>,
                        logBatchQueue := [[sample 100]],
                        handedOff := [[sample 100]],
                        logged := [Warn ''Log is too large to batch, dropping log.'']\<rparr>) \<and>
   batchLoop 2 250 (\<lambda>n. 0) batcher_init ([Log (sample 100)] @ [Log (sample 200)]) =
     Some (batcher_init\<lparr>logBatch := \<lparr>logs = [sample 200], sizeBytes = 200\<rparr>,
                        logBatchQueue := [[sample 100]],
                        handedOff := [[sample 100]]\<rparr>) \<and>
   batchLogs 2 250 (\<lambda>n. 0) ([Log (sample 100)] @ Log (sample 300) # [Log (sample 200)]) =
     Some (batcher_init\<lparr>logBatch := \<lparr>logs = [sample 200], sizeBytes = 200\<rparr>,
                        logBatchQueue := [[sample 100], [sample 200]],
                        handedOff := [[sample 100], [sample 200]],
                        logged := [Warn ''Log is too large to batch, dropping log.''],
                        logBatchQueueClosed := True\<rparr>)"
proof -
  let ?with = "[Log (sample 100)] @ Log (sample 300) # [Log (sample 200)]"
  let ?without = "[Log (sample 100)] @ [Log (sample 200)]"
  have h1: "0 < (2::nat)" by simp
  have h2: "(250::int) < int (length (line (sample 300)))" by (simp add: sample_size)
  note t = batchLogs_drops_oversized[OF h1 h2, of "\<lambda>n. 0" "[Log (sample 100)]" "[Log (sample 200)]"]
  have "batchStep 2 250 (\<lambda>n. 0) batcher_init (Log (sample 300)) =
     Some (batcher_init\<lparr>logged := logged batcher_init @ [Warn ''Log is too large to batch, dropping log.'']\<rparr>)"
    using t by blast
  then have a: "batchStep 2 250 (\<lambda>n. 0) batcher_init (Log (sample 300)) =
     Some (batcher_init\<lparr>logged := [Warn ''Log is too large to batch, dropping log.'']\<rparr>)"
    by (simp add: batcher_init_def)
  have b: "batchLoop 2 250 (\<lambda>n. 0) batcher_init ?with =
     Some (batcher_init\<lparr>logBatch := \<lparr>logs = [sample 200], sizeBytes = 200\<rparr>,
                        logBatchQueue := [[sample 100]],
                        handedOff := [[sample 100]],
                        logged := [Warn ''Log is too large to batch, dropping log.'']\<rparr>)"
    by (simp add: sample_size batcher_init_def NewSumoLogBatch_def pushBatchToQueue_def Reset_def)
  have c: "batchLoop 2 250 (\<lambda>n. 0) batcher_init ?without =
     Some (batcher_init\<lparr>logBatch := \<lparr>logs = [sample 200], sizeBytes = 200\<rparr>,
                        logBatchQueue := [[sample 100]],
                        handedOff := [[sample 100]]\<rparr>)"
    by (simp add: sample_size batcher_init_def NewSumoLogBatch_def pushBatchToQueue_def Reset_def)
  have d: "batchLogs 2 250 (\<lambda>n. 0) ?with =
     Some (batcher_init\<lparr>logBatch := \<lparr>logs = [sample 200], sizeBytes = 200\<rparr>,
                        logBatchQueue := [[sample 100], [sample 200]],
                        handedOff := [[sample 100], [sample 200]],
                        logged := [Warn ''Log is too large to batch, dropping log.''],
                        logBatchQueueClosed := True\<rparr>)"
    unfolding batchLogs_def b by (simp add: closeFlush_def batcher_init_def)
  show ?thesis using h1 h2 a b c d by blast
qed


lemma batchLoop_all_fit:
  assumes "0 \<le> sizeBytes (logBatch st)" "sizeBytes (logBatch st) + payload recs \<le> bs"
  shows "batchLoop cap bs w st (map Log recs) =
           Some (st\<lparr>logBatch := (logBatch st)\<lparr>logs := logs (logBatch st) @ recs,
                                    sizeBytes := sizeBytes (logBatch st) + payload recs\<rparr>\<rparr>)"
  using assms
proof (induction recs arbitrary: st)
  case Nil
  then show ?case by (simp add: payload_Nil)
next
  case (Cons r recs)
  have pr: "payload (r # recs) = int (length (line r)) + payload recs"
    by (simp add: payload_def)
  have nn: "0 \<le> payload recs" by (rule payload_nonneg)
  let ?s = "st\<lparr>logBatch := (logBatch st)\<lparr>logs := logs (logBatch st) @ [r],
               sizeBytes := sizeBytes (logBatch st) + int (length (line r))\<rparr>\<rparr>"
  have step: "batchStep cap bs w st (Log r) = Some ?s"
    using Cons.prems pr nn by simp
  have "batchLoop cap bs w ?s (map Log recs) =
          Some (?s\<lparr>logBatch := (logBatch ?s)\<lparr>logs := logs (logBatch ?s) @ recs,
                                     sizeBytes := sizeBytes (logBatch ?s) + payload recs\<rparr>\<rparr>)"
    by (rule Cons.IH) (use Cons.prems pr in simp_all)
  then show ?case using step pr by simp
qed

text \<open>
  C6. A non-empty sequence of records whose payloads add up to at most the threshold,
  followed by one flush: after a tick the queue holds the single batch of all the records
  in arrival order and the pending batch is empty; after closure of \<open>logQueue\<close> the queue
  holds that same single batch and is closed.
\<close>

theorem batchLogs_single_flush_one_batch:
  assumes "0 < cap" and "recs \<noteq> []" and "payload recs \<le> threshold"
  shows "batchLoop cap threshold window batcher_init (map Log recs @ [Tick]) =
           Some (batcher_init\<lparr>logBatchQueue := [recs], handedOff := [recs]\<rparr>) \<and>
         batchLogs cap threshold window (map Log recs) =
           Some (batcher_init\<lparr>logBatch := \<lparr>logs = recs, sizeBytes = payload recs\<rparr>,
                              logBatchQueue := [recs], handedOff := [recs],
                              logBatchQueueClosed := True\<rparr>)"
proof -
  have loop: "batchLoop cap threshold window batcher_init (map Log recs) =
                Some (batcher_init\<lparr>logBatch := \<lparr>logs = recs, sizeBytes = payload recs\<rparr>\<rparr>)"
    using batchLoop_all_fit[of batcher_init recs threshold cap window] assms(3)
    by (simp add: batcher_init_def NewSumoLogBatch_def)
  have tick: "batchLoop cap threshold window batcher_init (map Log recs @ [Tick]) =
           Some (batcher_init\<lparr>logBatchQueue := [recs], handedOff := [recs]\<rparr>)"
    unfolding batchLoop_append loop using assms(1,2)
    by (simp add: pushBatchToQueue_def batcher_init_def Reset_def NewSumoLogBatch_def)
  have close: "batchLogs cap threshold window (map Log recs) =
           Some (batcher_init\<lparr>logBatch := \<lparr>logs = recs, sizeBytes = payload recs\<rparr>,
                              logBatchQueue := [recs], handedOff := [recs],
                              logBatchQueueClosed := True\<rparr>)"
    unfolding batchLogs_def loop using assms(1)
    by (simp add: closeFlush_def batcher_init_def)
  show ?thesis using tick close by simp
qed

theorem batchLogs_single_flush_one_batch_witness:
  "0 < (2::nat) \<and> [sample 100, sample 100] \<noteq> [] \<and> payload [sample 100, sample 100] \<le> 250 \<and>
   batchLoop 2 250 (\<lambda>n. 0) batcher_init (map Log [sample 100, sample 100] @ [Tick]) =
     Some (batcher_init\<lparr>logBatchQueue := [[sample 100, sample 100]],
                        handedOff := [[sample 100, sample 100]]\<rparr>) \<and>
   batchLogs 2 250 (\<lambda>n. 0) (map Log [sample 100, sample 100]) =
     Some (batcher_init\<lparr>logBatch := \<lparr>logs = [sample 100, sample 100],
                                      sizeBytes = payload [sample 100, sample 100]\<rparr>,
                        logBatchQueue := [[sample 100, sample 100]],
                        handedOff := [[sample 100, sample 100]],
                        logBatchQueueClosed := True\<rparr>)"
proof -
  have h1: "0 < (2::nat)" by simp
  have h2: "[sample 100, sample 100] \<noteq> []" by simp
  have h3: "payload [sample 100, sample 100] \<le> 250" by (simp add: payload_def sample_size)
  show ?thesis using h1 h2 h3 batchLogs_single_flush_one_batch[OF h1 h2 h3, of "\<lambda>n. 0"] by blast
qed



lemma pushBatches_closed_form:
  assumes "0 < cap"
  shows "length (logBatchQueue st) \<le> cap \<Longrightarrow>
         \<exists>st'. pushBatches cap st bs = Some st' \<and>
           length (logBatchQueue st') \<le> cap \<and>
           logBatchQueue st' = drop (length (logBatchQueue st @ bs) - cap) (logBatchQueue st @ bs) \<and>
           evicted st' = evicted st @ take (length (logBatchQueue st @ bs) - cap) (logBatchQueue st @ bs) \<and>
           logged st' = logged st @ replicate (length (logBatchQueue st @ bs) - cap)
                                      (Error ''log batch queue full, dropping oldest batch'') \<and>
           handedOff st' = handedOff st @ bs \<and>
           received st' = received st"
proof (induction bs arbitrary: st)
  case Nil
  then show ?case by simp
next
  case (Cons b bs)
  let ?s = "st\<lparr>logBatch := \<lparr>logs = b, sizeBytes = payload b\<rparr>\<rparr>"
  show ?case
  proof (cases "length (logBatchQueue st) < cap")
    case True
    let ?p = "?s\<lparr>logBatchQueue := logBatchQueue ?s @ [logs (logBatch ?s)],
                   handedOff := handedOff ?s @ [logs (logBatch ?s)],
                   logBatch := Reset (logBatch ?s)\<rparr>"
    have push: "pushBatchToQueue cap 0 ?s = Some ?p"
      by (rule pushBatchToQueue_room) (use True in simp)
    have "length (logBatchQueue ?p) \<le> cap" using True by simp
    from Cons.IH[OF this] obtain st' where
      st': "pushBatches cap ?p bs = Some st'" "length (logBatchQueue st') \<le> cap"
        "logBatchQueue st' = drop (length (logBatchQueue ?p @ bs) - cap) (logBatchQueue ?p @ bs)"
        "evicted st' = evicted ?p @ take (length (logBatchQueue ?p @ bs) - cap) (logBatchQueue ?p @ bs)"
        "logged st' = logged ?p @ replicate (length (logBatchQueue ?p @ bs) - cap)
                                      (Error ''log batch queue full, dropping oldest batch'')"
        "handedOff st' = handedOff ?p @ bs" "received st' = received ?p"
      by blast
    have "pushBatches cap st (b # bs) = Some st'" using push st'(1) by simp
    then show ?thesis using st'(2-7) by simp
  next
    case False
    with Cons.prems have full: "length (logBatchQueue st) = cap" by simp
    then obtain oldest rest where q: "logBatchQueue st = oldest # rest"
      using assms by (cases "logBatchQueue st") auto
    let ?p = "?s\<lparr>logBatchQueue := tl (logBatchQueue ?s) @ [logs (logBatch ?s)],
                    evicted := evicted ?s @ [hd (logBatchQueue ?s)],
                    logged := logged ?s @ [Error ''log batch queue full, dropping oldest batch''],
                    handedOff := handedOff ?s @ [logs (logBatch ?s)],
                    logBatch := Reset (logBatch ?s)\<rparr>"
    have push: "pushBatchToQueue cap 0 ?s = Some ?p"
      using pushBatchToQueue_full[of ?s cap 0] full assms by simp
    have len: "length (logBatchQueue ?p) \<le> cap" using full q by simp
    from Cons.IH[OF this] obtain st' where
      st': "pushBatches cap ?p bs = Some st'" "length (logBatchQueue st') \<le> cap"
        "logBatchQueue st' = drop (length (logBatchQueue ?p @ bs) - cap) (logBatchQueue ?p @ bs)"
        "evicted st' = evicted ?p @ take (length (logBatchQueue ?p @ bs) - cap) (logBatchQueue ?p @ bs)"
        "logged st' = logged ?p @ replicate (length (logBatchQueue ?p @ bs) - cap)
                                      (Error ''log batch queue full, dropping oldest batch'')"
        "handedOff st' = handedOff ?p @ bs" "received st' = received ?p"
      by blast
    have run: "pushBatches cap st (b # bs) = Some st'" using push st'(1) by simp
    have n: "length (logBatchQueue st @ b # bs) - cap = Suc (length bs)"
      using full by simp
    have n': "length (logBatchQueue ?p @ bs) - cap = length bs"
      using full q by simp
    show ?thesis using run st'(2-7) unfolding n n' using q
      by (simp add: replicate_append_same)
  qed
qed

text \<open>
  C4. Starting from a queue within its capacity and with no receive by the Sender, any
  sequence of calls of \<open>pushBatchToQueue\<close> returns, leaves the queue within capacity, and
  leaves in it the newest batches in their order: the batches discarded are the oldest
  ones, oldest first, one error logged for each. A single call on a full queue removes
  the head, logs the error and appends the new batch behind the rest.
\<close>

theorem pushBatchToQueue_bounded_drop_oldest:
  assumes "0 < cap" and "length (logBatchQueue st) \<le> cap"
  shows "(\<exists>st'. pushBatches cap st bs = Some st' \<and>
           length (logBatchQueue st') \<le> cap \<and>
           logBatchQueue st' = drop (length (logBatchQueue st @ bs) - cap) (logBatchQueue st @ bs) \<and>
           evicted st' = evicted st @ take (length (logBatchQueue st @ bs) - cap) (logBatchQueue st @ bs) \<and>
           logged st' = logged st @ replicate (length (logBatchQueue st @ bs) - cap)
                                      (Error ''log batch queue full, dropping oldest batch'') \<and>
           handedOff st' = handedOff st @ bs \<and>
           received st' = received st) \<and>
         pushBatchToQueue cap 0 st =
           (if length (logBatchQueue st) < cap then
              Some (st\<lparr>logBatchQueue := logBatchQueue st @ [logs (logBatch st)],
                       handedOff := handedOff st @ [logs (logBatch st)],
                       logBatch := Reset (logBatch st)\<rparr>)
            else
              Some (st\<lparr>logBatchQueue := tl (logBatchQueue st) @ [logs (logBatch st)],
                       evicted := evicted st @ [hd (logBatchQueue st)],
                       logged := logged st @ [Error ''log batch queue full, dropping oldest batch''],
                       handedOff := handedOff st @ [logs (logBatch st)],
                       logBatch := Reset (logBatch st)\<rparr>))"
proof -
  have one: "pushBatchToQueue cap 0 st =
           (if length (logBatchQueue st) < cap then
              Some (st\<lparr>logBatchQueue := logBatchQueue st @ [logs (logBatch st)],
                       handedOff := handedOff st @ [logs (logBatch st)],
                       logBatch := Reset (logBatch st)\<rparr>)
            else
              Some (st\<lparr>logBatchQueue := tl (logBatchQueue st) @ [logs (logBatch st)],
                       evicted := evicted st @ [hd (logBatchQueue st)],
                       logged := logged st @ [Error ''log batch queue full, dropping oldest batch''],
                       handedOff := handedOff st @ [logs (logBatch st)],
                       logBatch := Reset (logBatch st)\<rparr>))"
  proof (cases "length (logBatchQueue st) < cap")
    case True
    then show ?thesis using pushBatchToQueue_room[OF True] by simp
  next
    case False
    with assms(2) have "length (logBatchQueue st) = cap" by simp
    from pushBatchToQueue_full[OF this, of 0] assms(1) False show ?thesis by simp
  qed
  show ?thesis using pushBatches_closed_form[OF assms, of bs] one by blast
qed

theorem pushBatchToQueue_bounded_drop_oldest_witness:
  "0 < (2::nat) \<and> length (logBatchQueue batcher_init) \<le> 2 \<and>
   (\<exists>st'. pushBatches 2 batcher_init [[sample 1], [sample 2], [sample 3]] = Some st' \<and>
      logBatchQueue st' = [[sample 2], [sample 3]] \<and>
      evicted st' = [[sample 1]] \<and>
      logged st' = [Error ''log batch queue full, dropping oldest batch''])"
proof -
  have h1: "0 < (2::nat)" by simp
  have h2: "length (logBatchQueue batcher_init) \<le> 2" by (simp add: batcher_init_def)
  from pushBatchToQueue_bounded_drop_oldest[OF h1 h2, of "[[sample 1], [sample 2], [sample 3]]"]
  obtain st' where
    st': "pushBatches 2 batcher_init [[sample 1], [sample 2], [sample 3]] = Some st'"
      "logBatchQueue st' = drop (length (logBatchQueue batcher_init @ [[sample 1], [sample 2], [sample 3]]) - 2)
          (logBatchQueue batcher_init @ [[sample 1], [sample 2], [sample 3]])"
      "evicted st' = evicted batcher_init @ take (length (logBatchQueue batcher_init @ [[sample 1], [sample 2], [sample 3]]) - 2)
          (logBatchQueue batcher_init @ [[sample 1], [sample 2], [sample 3]])"
      "logged st' = logged batcher_init @ replicate (length (logBatchQueue batcher_init @ [[sample 1], [sample 2], [sample 3]]) - 2)
                                      (Error ''log batch queue full, dropping oldest batch'')"
    by blast
  have "logBatchQueue st' = [[sample 2], [sample 3]]" "evicted st' = [[sample 1]]"
       "logged st' = [Error ''log batch queue full, dropping oldest batch'']"
    using st'(2-4) by (simp_all add: batcher_init_def)
  then show ?thesis using h1 h2 st'(1) by blast
qed

section \<open>Sender: retries, request body and headers\<close>

lemma writeMessage_buffer: "writeMessage buffer_Write buf ls = Inr (buf @ wire ls)"
  by (induction ls arbitrary: buf) (simp_all add: buffer_Write_def wire_def)

lemma writeMessage_gzip:
  "writeMessage gzip_Write w ls = Inr (w\<lparr>written := written w @ wire ls\<rparr>)"
  by (induction ls arbitrary: w) (simp_all add: gzip_Write_def wire_def)

lemma sendLogs_wire:
  "sendLogs endpoint a ls =
     (case a of
        RequestRejected \<Rightarrow> (None, Some NewRequestError)
      | DoFails \<Rightarrow>
          (Some \<lparr>httpMethod = ''POST'', url = endpoint, header = [], body = wire ls\<rparr>,
           Some TransportError)
      | Response status readable \<Rightarrow>
          (Some \<lparr>httpMethod = ''POST'', url = endpoint, header = [], body = wire ls\<rparr>,
           if status = 200 then None
           else if readable then Some (FailedToSend status) else Some BodyReadError))"
  by (cases a) (simp_all add: sendLogs_def writeMessage_buffer Let_def)

lemma sendLogs_succeeds:
  "succeeds a \<Longrightarrow>
     sendLogs endpoint a ls =
       (Some \<lparr>httpMethod = ''POST'', url = endpoint, header = [], body = wire ls\<rparr>, None)"
  by (cases a) (simp_all add: sendLogs_def writeMessage_buffer succeeds_def)

lemma sendLogs_fails:
  "\<not> succeeds a \<Longrightarrow>
     \<exists>r err. sendLogs endpoint a ls = (r, Some err) \<and>
             posted r @ [Sleep retryInterval] = failed_attempt endpoint ls a"
  by (cases a)
     (auto simp: sendLogs_def writeMessage_buffer succeeds_def posted_def failed_attempt_def Let_def)

lemma handleBatchedLogs_fails:
  "\<forall>a \<in> set fails. \<not> succeeds a \<Longrightarrow>
     handleBatchedLogs endpoint (b # rest) (fails @ as) =
       (let run = handleBatchedLogs endpoint (b # rest) as
        in run\<lparr>trace := concat (map (failed_attempt endpoint b) fails) @ trace run\<rparr>)"
proof (induction fails)
  case Nil
  show ?case by (simp add: Let_def)
next
  case (Cons a fails)
  then have na: "\<not> succeeds a" and rest: "\<forall>a \<in> set fails. \<not> succeeds a" by simp_all
  from sendLogs_fails[OF na, of endpoint b] obtain r err where
    r: "sendLogs endpoint a b = (r, Some err)"
       "posted r @ [Sleep retryInterval] = failed_attempt endpoint b a" by blast
  show ?case using Cons.IH[OF rest] r by (simp add: Let_def)
qed

lemma handleBatchedLogs_conserves:
  "delivered (handleBatchedLogs endpoint batches as)
     @ undelivered (handleBatchedLogs endpoint batches as) = batches"
proof (induction endpoint batches as rule: handleBatchedLogs.induct)
  case (1 endpoint as)
  show ?case by simp
next
  case (2 endpoint b rest)
  show ?case by simp
next
  case (3 endpoint b rest a as)
  obtain r e where s: "sendLogs endpoint a b = (r, e)" by (cases "sendLogs endpoint a b")
  show ?case
  proof (cases e)
    case None
    with s 3(1) show ?thesis by (simp add: Let_def)
  next
    case (Some err)
    with s 3(2) show ?thesis by (simp add: Let_def)
  qed
qed

text \<open>
  C2. For a batch received by the Sender and any run of failed calls of \<open>sendLogs\<close>
  (request rejected, transport error, or a status other than 200, whether or not the
  error body can be read) followed by a response with status 200: every failed call is
  followed by a sleep of \<open>retryInterval\<close>, every request issued is the same POST with the
  batch's payloads each followed by a newline as its body, the successful call issues
  that request once more, the batch is then delivered and the Sender goes on with the
  next batch. While every call fails, nothing is delivered and the Sender stays on the
  batch. In every run the batches delivered followed by those not delivered are the
  batches received, in order: none lost, none twice.
\<close>

theorem handleBatchedLogs_retries_until_success:
  assumes "\<forall>a \<in> set fails. \<not> succeeds a"
  shows "handleBatchedLogs endpoint (b # rest) (fails @ Response 200 readable # as) =
           (let run = handleBatchedLogs endpoint rest as
            in run\<lparr>trace := concat (map (failed_attempt endpoint b) fails)
                               @ Post \<lparr>httpMethod = ''POST'', url = endpoint, header = [], body = wire b\<rparr>
                               # trace run,
                     delivered := b # delivered run\<rparr>) \<and>
         handleBatchedLogs endpoint (b # rest) fails =
           \<lparr>trace = concat (map (failed_attempt endpoint b) fails),
            delivered = [], undelivered = b # rest, returned = False\<rparr> \<and>
         delivered (handleBatchedLogs endpoint batches as')
           @ undelivered (handleBatchedLogs endpoint batches as') = batches"
proof -
  have ok: "sendLogs endpoint (Response 200 readable) b =
       (Some \<lparr>httpMethod = ''POST'', url = endpoint, header = [], body = wire b\<rparr>, None)"
    by (rule sendLogs_succeeds) (simp add: succeeds_def)
  have one: "handleBatchedLogs endpoint (b # rest) (fails @ Response 200 readable # as) =
           (let run = handleBatchedLogs endpoint rest as
            in run\<lparr>trace := concat (map (failed_attempt endpoint b) fails)
                               @ Post \<lparr>httpMethod = ''POST'', url = endpoint, header = [], body = wire b\<rparr>
                               # trace run,
                     delivered := b # delivered run\<rparr>)"
    unfolding handleBatchedLogs_fails[OF assms]
    using ok by (simp add: Let_def posted_def)
  have two: "handleBatchedLogs endpoint (b # rest) fails =
           \<lparr>trace = concat (map (failed_attempt endpoint b) fails),
            delivered = [], undelivered = b # rest, returned = False\<rparr>"
    using handleBatchedLogs_fails[OF assms, of endpoint b rest "[]"] by (simp add: Let_def)
  show ?thesis using one two handleBatchedLogs_conserves by blast
qed


theorem handleBatchedLogs_retries_until_success_witness:
  "\<not> succeeds (Response 500 True) \<and>
   handleBatchedLogs ''https://collector'' [[sample 1], [sample 2]]
       ([Response 500 True, Response 500 True] @ Response 200 True # [DoFails]) =
     \<lparr>trace = [Post \<lparr>httpMethod = ''POST'', url = ''https://collector'', header = [], body = [120, 10]\<rparr>,
               Sleep 5000000000,
               Post \<lparr>httpMethod = ''POST'', url = ''https://collector'', header = [], body = [120, 10]\<rparr>,
               Sleep 5000000000,
               Post \<lparr>httpMethod = ''POST'', url = ''https://collector'', header = [], body = [120, 10]\<rparr>,
               Post \<lparr>httpMethod = ''POST'', url = ''https://collector'', header = [], body = [120, 120, 10]\<rparr>,
               Sleep 5000000000],
      delivered = [[sample 1]], undelivered = [[sample 2]], returned = False\<rparr>"
proof -
  have h: "\<forall>a \<in> set [Response 500 True, Response 500 True]. \<not> succeeds a"
    by (simp add: succeeds_def)
  have w1: "wire [sample 1] = [120, 10]" by (simp add: wire_def sample_def)
  have w2: "wire [sample 2] = [120, 120, 10]"
    by (simp add: wire_def sample_def numeral_2_eq_2)
  have f: "failed_attempt ''https://collector'' [sample 1] (Response 500 True) =
             [Post \<lparr>httpMethod = ''POST'', url = ''https://collector'', header = [], body = [120, 10]\<rparr>,
              Sleep 5000000000]"
    by (simp add: failed_attempt_def w1 retryInterval_def del: One_nat_def)
  have tl: "handleBatchedLogs ''https://collector'' [[sample 2]] [DoFails] =
     \<lparr>trace = [Post \<lparr>httpMethod = ''POST'', url = ''https://collector'', header = [], body = [120, 120, 10]\<rparr>,
               Sleep 5000000000],
      delivered = [], undelivered = [[sample 2]], returned = False\<rparr>"
    by (simp add: sendLogs_wire w2 posted_def retryInterval_def del: One_nat_def)
  from handleBatchedLogs_retries_until_success[OF h,
      of "''https://collector''" "[sample 1]" "[[sample 2]]" True "[DoFails]"]
  have "handleBatchedLogs ''https://collector'' [[sample 1], [sample 2]]
          ([Response 500 True, Response 500 True] @ Response 200 True # [DoFails]) =
        (let run = handleBatchedLogs ''https://collector'' [[sample 2]] [DoFails]
         in run\<lparr>trace := concat (map (failed_attempt ''https://collector'' [sample 1])
                                     [Response 500 True, Response 500 True])
                            @ Post \<lparr>httpMethod = ''POST'', url = ''https://collector'', header = [],
                                    body = wire [sample 1]\<rparr>
                            # trace run,
                  delivered := [sample 1] # delivered run\<rparr>)"
    by blast
  then show ?thesis unfolding tl by (simp add: f w1 succeeds_def Let_def del: One_nat_def)
qed

text \<open>
  C7. The claim is that every request carries \<open>Content-Type: text/plain\<close>. The
  \<open>sendLogs\<close> of the batching pipeline, on a batch of the single record \<open>a\<close> and an endpoint
  that answers 200, issues a POST whose body is the payload and a newline and whose
  header list is empty.
\<close>

theorem sendLogs_request_has_no_header:
  "sendLogs endpoint (Response 200 readable) [\<lparr>line = [97], source = [], time = [], isPartial = False\<rparr>] =
     (Some \<lparr>httpMethod = ''POST'', url = endpoint, header = [], body = [97, 10]\<rparr>, None)"
  by (simp add: sendLogs_def buffer_Write_def)

lemma makePostRequest_request:
  assumes "ls \<noteq> []" and "- 2 \<le> gzipCompressionLevel lg" and "gzipCompressionLevel lg \<le> 9"
  shows "makePostRequest gz lg (Response 200 readable) ls =
           (Some \<lparr>httpMethod = ''POST'', url = httpSourceUrl lg,
                   header = (if gzipCompression lg
                             then [(''Content-Type'', ''text/plain''), (''Content-Encoding'', ''gzip'')]
                             else [(''Content-Type'', ''text/plain'')]),
                   body = (if gzipCompression lg then gz (gzipCompressionLevel lg) (wire ls)
                           else wire ls)\<rparr>, None)"
  using assms
  by (simp add: makePostRequest_def writeMessageGzipCompression_def gzip_NewWriterLevel_def
      writeMessage_gzip writeMessage_buffer gzip_Close_def)

text \<open>
  C9. When \<open>logQueue\<close> closes while the pending batch is empty and the channel has room,
  \<open>batchLogs\<close> sends the empty batch on \<open>logBatchQueue\<close> and closes it; \<open>sendLogs\<close> on an empty
  batch, unless \<open>http.NewRequest\<close> rejects the URL, issues a POST with an empty body, and
  so does the Sender that receives the empty batch from the queue; \<open>makePostRequest\<close> on
  an empty batch returns \<open>nil\<close> and issues no request.
\<close>

theorem empty_batch_is_enqueued_and_posted:
  assumes "batchLoop cap threshold window batcher_init evs = Some st"
    and "logs (logBatch st) = []"
    and "length (logBatchQueue st) < cap"
    and "a \<noteq> RequestRejected"
  shows "batchLogs cap threshold window evs =
           Some (st\<lparr>logBatchQueue := logBatchQueue st @ [[]],
                    handedOff := handedOff st @ [[]],
                    logBatchQueueClosed := True\<rparr>) \<and>
         fst (sendLogs endpoint a []) =
           Some \<lparr>httpMethod = ''POST'', url = endpoint, header = [], body = []\<rparr> \<and>
         handleBatchedLogs endpoint [[]] [Response 200 readable] =
           \<lparr>trace = [Post \<lparr>httpMethod = ''POST'', url = endpoint, header = [], body = []\<rparr>],
            delivered = [[]], undelivered = [], returned = True\<rparr> \<and>
         makePostRequest gz lg a [] = (None, None)"
proof -
  have one: "batchLogs cap threshold window evs =
           Some (st\<lparr>logBatchQueue := logBatchQueue st @ [[]],
                    handedOff := handedOff st @ [[]],
                    logBatchQueueClosed := True\<rparr>)"
    using assms(1-3) by (simp add: batchLogs_def closeFlush_def)
  have two: "fst (sendLogs endpoint a []) =
           Some \<lparr>httpMethod = ''POST'', url = endpoint, header = [], body = []\<rparr>"
    using assms(4) by (cases a) (simp_all add: sendLogs_def Let_def)
  have three: "makePostRequest gz lg a [] = (None, None)"
    by (simp add: makePostRequest_def)
  have four: "handleBatchedLogs endpoint [[]] [Response 200 readable] =
           \<lparr>trace = [Post \<lparr>httpMethod = ''POST'', url = endpoint, header = [], body = []\<rparr>],
            delivered = [[]], undelivered = [], returned = True\<rparr>"
    by (simp add: sendLogs_wire posted_def wire_def)
  show ?thesis using one two three four by simp
qed

theorem empty_batch_is_enqueued_and_posted_witness:
  "batchLoop 1 250 (\<lambda>n. 0) batcher_init [Tick] = Some batcher_init \<and>
   logs (logBatch batcher_init) = [] \<and>
   length (logBatchQueue batcher_init) < 1 \<and>
   Response 200 True \<noteq> RequestRejected \<and>
   batchLogs 1 250 (\<lambda>n. 0) [Tick] =
     Some (batcher_init\<lparr>logBatchQueue := [[]], handedOff := [[]], logBatchQueueClosed := True\<rparr>) \<and>
   fst (sendLogs ''https://collector'' (Response 200 True) []) =
     Some \<lparr>httpMethod = ''POST'', url = ''https://collector'', header = [], body = []\<rparr>"
proof -
  have h1: "batchLoop 1 250 (\<lambda>n. 0) batcher_init [Tick] = Some batcher_init"
    by (simp add: batcher_init_def NewSumoLogBatch_def)
  have h2: "logs (logBatch batcher_init) = []" by (simp add: batcher_init_def NewSumoLogBatch_def)
  have h3: "length (logBatchQueue batcher_init) < 1" by (simp add: batcher_init_def)
  have h4: "Response 200 True \<noteq> RequestRejected" by simp
  from empty_batch_is_enqueued_and_posted[OF h1 h2 h3 h4, of "''https://collector''"]
  have "batchLogs 1 250 (\<lambda>n. 0) [Tick] =
           Some (batcher_init\<lparr>logBatchQueue := logBatchQueue batcher_init @ [[]],
                    handedOff := handedOff batcher_init @ [[]],
                    logBatchQueueClosed := True\<rparr>)"
       "fst (sendLogs ''https://collector'' (Response 200 True) []) =
           Some \<lparr>httpMethod = ''POST'', url = ''https://collector'', header = [], body = []\<rparr>"
    by simp_all
  then show ?thesis using h1 h2 h3 h4 by (simp add: batcher_init_def)
qed

section \<open>Pipeline manager: duplicate start and stop\<close>

text \<open>
  C8. A call of \<open>StartLogging\<close> for a file that is already in the registry returns the
  "already exists" error and leaves the driver as it was: the registry, the fifos opened,
  the goroutines started and the log are unchanged.
\<close>

theorem StartLogging_duplicate_rejected:
  assumes "loggers drv file = Some lg"
  shows "startLoggingInternal e drv file cfg = (Inl (AlreadyExists file), drv) \<and>
         StartLogging e drv file cfg = (Some (AlreadyExists file), drv)"
  using assms by (simp add: StartLogging_def startLoggingInternal_def)

theorem StartLogging_duplicate_rejected_witness:
  "loggers driver0 ''/run/a'' = Some logger0 \<and>
   StartLogging env0 driver0 ''/run/a'' Map.empty = (Some (AlreadyExists ''/run/a''), driver0)"
proof -
  have h: "loggers driver0 ''/run/a'' = Some logger0" by (simp add: driver0_def)
  show ?thesis using h StartLogging_duplicate_rejected[OF h, of env0 Map.empty] by simp
qed

text \<open>
  C10. \<open>StopLogging\<close> returns \<open>nil\<close> for every driver state and file. With no logger for the
  file the driver is unchanged; with one, its input file is closed and its entry removed,
  and every other entry of the registry stays as it was.
\<close>

theorem StopLogging_returns_nil:
  "fst (StopLogging drv file) = None \<and>
   (loggers drv file = None \<longrightarrow> snd (StopLogging drv file) = drv) \<and>
   (\<forall>lg. loggers drv file = Some lg \<longrightarrow>
      snd (StopLogging drv file) =
        drv\<lparr>filesClosed := filesClosed drv @ [inputQueueFile lg],
            loggers := (loggers drv)(file := None)\<rparr>) \<and>
   loggers (snd (StopLogging drv file)) file = None \<and>
   (\<forall>other. other \<noteq> file \<longrightarrow>
      loggers (snd (StopLogging drv file)) other = loggers drv other)"
  by (cases "loggers drv file") (simp_all add: StopLogging_def)

theorem StopLogging_returns_nil_witness:
  "loggers driver0 ''/run/b'' = None \<and>
   StopLogging driver0 ''/run/b'' = (None, driver0) \<and>
   loggers driver0 ''/run/a'' = Some logger0 \<and>
   StopLogging driver0 ''/run/a'' =
     (None, driver0\<lparr>filesClosed := [''/run/a''], loggers := Map.empty\<rparr>)"
proof -
  have h1: "loggers driver0 ''/run/b'' = None" by (simp add: driver0_def)
  have h2: "loggers driver0 ''/run/a'' = Some logger0" by (simp add: driver0_def)
  have a: "StopLogging driver0 ''/run/b'' = (None, driver0)"
    using StopLogging_returns_nil[of driver0 "''/run/b''"] h1
    by (simp add: prod_eq_iff)
  have "StopLogging driver0 ''/run/a'' =
     (None, driver0\<lparr>filesClosed := filesClosed driver0 @ [inputQueueFile logger0],
                    loggers := (loggers driver0)(''/run/a'' := None)\<rparr>)"
    using StopLogging_returns_nil[of driver0 "''/run/a''"] h2
    by (simp add: prod_eq_iff)
  then have b: "StopLogging driver0 ''/run/a'' =
     (None, driver0\<lparr>filesClosed := [''/run/a''], loggers := Map.empty\<rparr>)"
    by (simp add: driver0_def newSumoDriver_def logger0_def)
  show ?thesis using h1 h2 a b by simp
qed

lemma StartLogging_fresh:
  "StartLogging env0 newSumoDriver ''/run/a'' [logOptUrl \<mapsto> ''https://collector''] = (None, driver0)"
  by (simp add: StartLogging_def startLoggingInternal_def newSumoDriver_def env0_def driver0_def
      logger0_def parseLogOptBoolean_def parseLogOptInt_def parseLogOptDuration_def
      parseLogOptProxyUrl_def logOptUrl_def logOptGzipCompression_def
      logOptGzipCompressionLevel_def logOptProxyUrl_def logOptInsecureSkipVerify_def
      logOptRootCaPath_def logOptServerName_def logOptSendingInterval_def logOptQueueSize_def
      logOptBatchSize_def defaultGzipCompression_def defaultGzipCompressionLevel_def
      defaultInsecureSkipVerify_def defaultSendingInterval_def defaultQueueSize_def
      defaultBatchSize_def Let_def)

section \<open>The sender of \<open>driver.go\<close>: a single flush below the record count\<close>

lemma queue_accumulates:
  assumes "0 < batchSize lg" "int (length (pending st)) + int (length recs) < batchSize lg"
  shows "queueLogsForSending gz lg outcome st (map Incoming recs @ evs) =
           queueLogsForSending gz lg outcome (st\<lparr>pending := pending st @ recs\<rparr>) evs"
  using assms(2)
proof (induction recs arbitrary: st)
  case Nil
  then show ?case by simp
next
  case (Cons r recs)
  let ?s = "st\<lparr>pending := pending st @ [r]\<rparr>"
  have pos: "0 < int (length (pending ?s))" by simp
  have lt: "int (length (pending ?s)) < batchSize lg" using Cons.prems by simp
  have nz: "int (length (pending ?s)) mod batchSize lg \<noteq> 0"
    using pos lt by simp
  have "queueLogsForSending gz lg outcome st (map Incoming (r # recs) @ evs) =
          queueLogsForSending gz lg outcome ?s (map Incoming recs @ evs)"
    using nz assms(1) by (simp add: Let_def)
  also have "\<dots> = queueLogsForSending gz lg outcome (?s\<lparr>pending := pending ?s @ recs\<rparr>) evs"
    by (rule Cons.IH) (use Cons.prems in simp)
  finally show ?case by simp
qed

lemma sendLogs_driver_one:
  assumes "0 < batchSize lg" "pending st \<noteq> []" "int (length (pending st)) \<le> batchSize lg"
    and "- 2 \<le> gzipCompressionLevel lg" "gzipCompressionLevel lg \<le> 9"
    and "outcome (calls st) = Response 200 readable"
  shows "sendLogs_driver gz lg outcome st =
           Some (st\<lparr>pending := [], posts := posts st @ [Post (wireRequest gz lg (pending st))],
                    calls := Suc (calls st)\<rparr>)"
proof -
  have t: "take (nat (batchSize lg)) (pending st) = pending st" using assms(3) by simp
  have d: "drop (nat (batchSize lg)) (pending st) = []" using assms(3) by simp
  have m: "makePostRequest gz lg (outcome (calls st)) (pending st) =
             (Some (wireRequest gz lg (pending st)), None)"
    unfolding assms(6) wireRequest_def
    by (rule makePostRequest_request[OF assms(2) assms(4) assms(5)])
  have "sendLoop gz lg outcome (calls st) (pending st) =
          Some ([Post (wireRequest gz lg (pending st))], [], [], Suc (calls st))"
    using assms(1,2) t d m by (simp add: posted_def)
  then show ?thesis by (simp add: sendLogs_driver_def)
qed

lemma queueLogsForSending_single_flush:
  assumes "0 < batchSize lg" "recs \<noteq> []" "int (length recs) < batchSize lg"
    and "- 2 \<le> gzipCompressionLevel lg" "gzipCompressionLevel lg \<le> 9"
    and "outcome 0 = Response 200 readable"
  shows "queueLogsForSending gz lg outcome
            \<lparr>pending = [], posts = [], calls = 0, forwarderLog = []\<rparr> (map Incoming recs) =
           Some \<lparr>pending = [], posts = [Post (wireRequest gz lg recs)], calls = 1, forwarderLog = []\<rparr>"
proof -
  let ?st0 = "\<lparr>pending = [], posts = [], calls = 0, forwarderLog = []\<rparr>"
  have "queueLogsForSending gz lg outcome ?st0 (map Incoming recs @ []) =
          queueLogsForSending gz lg outcome (?st0\<lparr>pending := pending ?st0 @ recs\<rparr>) []"
    by (rule queue_accumulates[OF assms(1)]) (use assms(3) in simp)
  moreover have "sendLogs_driver gz lg outcome (?st0\<lparr>pending := pending ?st0 @ recs\<rparr>) =
      Some ((?st0\<lparr>pending := pending ?st0 @ recs\<rparr>)\<lparr>pending := [],
          posts := posts (?st0\<lparr>pending := pending ?st0 @ recs\<rparr>)
                    @ [Post (wireRequest gz lg (pending (?st0\<lparr>pending := pending ?st0 @ recs\<rparr>)))],
          calls := Suc (calls (?st0\<lparr>pending := pending ?st0 @ recs\<rparr>))\<rparr>)"
    by (rule sendLogs_driver_one[OF assms(1) _ _ assms(4) assms(5)]) (use assms in simp_all)
  ultimately show ?thesis by simp
qed

lemma queueLogsForSending_tick_flush:
  assumes "0 < batchSize lg" "recs \<noteq> []" "int (length recs) < batchSize lg"
    and "- 2 \<le> gzipCompressionLevel lg" "gzipCompressionLevel lg \<le> 9"
    and "outcome 0 = Response 200 readable"
  shows "queueLogsForSending gz lg outcome
            \<lparr>pending = [], posts = [], calls = 0, forwarderLog = []\<rparr> (map Incoming recs @ [TimerTick]) =
           Some \<lparr>pending = [], posts = [Post (wireRequest gz lg recs)], calls = 1, forwarderLog = []\<rparr>"
proof -
  let ?st0 = "\<lparr>pending = [], posts = [], calls = 0, forwarderLog = []\<rparr>"
  let ?st1 = "?st0\<lparr>pending := pending ?st0 @ recs\<rparr>"
  have acc: "queueLogsForSending gz lg outcome ?st0 (map Incoming recs @ [TimerTick]) =
          queueLogsForSending gz lg outcome ?st1 [TimerTick]"
    by (rule queue_accumulates[OF assms(1)]) (use assms(3) in simp)
  have flush: "sendLogs_driver gz lg outcome ?st1 =
      Some (?st1\<lparr>pending := [], posts := posts ?st1 @ [Post (wireRequest gz lg (pending ?st1))],
          calls := Suc (calls ?st1)\<rparr>)"
    by (rule sendLogs_driver_one[OF assms(1) _ _ assms(4) assms(5)]) (use assms in simp_all)
  have idle: "sendLogs_driver gz lg outcome
                \<lparr>pending = [], posts = [Post (wireRequest gz lg recs)], calls = 1, forwarderLog = []\<rparr> =
              Some \<lparr>pending = [], posts = [Post (wireRequest gz lg recs)], calls = 1, forwarderLog = []\<rparr>"
    by (simp add: sendLogs_driver_def)
  show ?thesis unfolding acc using flush idle by simp
qed

end
